theory Spec2Isabelle
  imports Main "HOL-Library.Product_Lexorder"
begin

section \<open>Over-Engineered Othello: board, capture scan, move generation, turn loop\<close>

text \<open>
  A shallow embedding of the final version of the game (the variant with a configurable
  board size, \<open>std::set\<close> capture sets and the heuristic opponent).

  Representation choices.
  \<^item> C++ \<open>int\<close> is modelled by \<open>int\<close>; all arithmetic in the modelled code stays
    within \<open>[-1, maxBoardSize]\<close> or counts board cells, so no wrap-around is reachable.
  \<^item> \<open>std::map<std::pair<int,int>, V>\<close> is an association list whose keys are strictly
    increasing in the lexicographic order of pairs (the order \<open>std::pair\<close> compares
    by and \<open>std::map\<close> iterates in). Iterating the container is recursion over the list.
  \<^item> \<open>std::set<std::pair<int,int>>\<close> is a strictly increasing list of positions.
  \<^item> A thrown exception is a value of type \<open>error\<close>. An operation that mutates the
    board before throwing returns the board as it stands at the throw.
  \<^item> The scan loop has no bound in its text, so it is a \<open>partial_function\<close> in the
    option monad: \<open>None\<close> means that the loop does not return.
\<close>

subsection \<open>Positions, directions, exceptions\<close>

type_synonym pos = "int \<times> int"

text \<open>The global list \<open>directions\<close>: north, south, west, east, NW, NE, SW, SE.\<close>

definition directions :: "pos list" where
  "directions = [(-1, 0), (1, 0), (0, -1), (0, 1), (-1, -1), (-1, 1), (1, -1), (1, 1)]"

datatype error =
    invalid_argument   \<comment> \<open>\<open>std::invalid_argument\<close>, thrown by the constructor of \<open>Board\<close>\<close>
  | out_of_range       \<comment> \<open>\<open>std::out_of_range\<close>, thrown by \<open>std::map::at\<close>\<close>
  | runtime_error string

abbreviation OccupiedCellError :: error where
  "OccupiedCellError \<equiv> runtime_error ''square is already occupied.''"

abbreviation EmptyCellFlipError :: error where
  "EmptyCellFlipError \<equiv> runtime_error ''cannot flip an empty square.''"

text \<open>Sequencing of computations that may throw (\<open>Inl\<close>) or not return (\<open>None\<close>).\<close>

definition and_then :: "(error + 'a) option \<Rightarrow> ('a \<Rightarrow> (error + 'b) option) \<Rightarrow> (error + 'b) option" where
  "and_then m f = (case m of None \<Rightarrow> None | Some (Inl e) \<Rightarrow> Some (Inl e) | Some (Inr x) \<Rightarrow> f x)"

subsection \<open>The containers\<close>

text \<open>The containers are templates over the element or key type, ordered by \<open><\<close>.
  \<open>std::set::insert\<close>: insertion into a strictly increasing list, duplicates dropped.\<close>

fun set_insert :: "'a::linorder \<Rightarrow> 'a list \<Rightarrow> 'a list" where
  "set_insert p [] = [p]"
| "set_insert p (q # qs) =
     (if p < q then p # q # qs else if p = q then q # qs else q # set_insert p qs)"

text \<open>\<open>s.insert(first, last)\<close>: every element of the range is inserted.\<close>

definition set_insert_range :: "'a::linorder list \<Rightarrow> 'a list \<Rightarrow> 'a list" where
  "set_insert_range xs s = fold set_insert xs s"

text \<open>\<open>m[k] = v\<close>: the entry is created at its place in key order, or overwritten.\<close>

fun map_assign :: "'k::linorder \<Rightarrow> 'v \<Rightarrow> ('k \<times> 'v) list \<Rightarrow> ('k \<times> 'v) list" where
  "map_assign k v [] = [(k, v)]"
| "map_assign k v ((k', v') # m) =
     (if k < k' then (k, v) # (k', v') # m
      else if k = k' then (k, v) # m
      else (k', v') # map_assign k v m)"

text \<open>Writing through the reference returned by \<open>m.at(k)\<close>: the entry under \<open>k\<close> is
  replaced in place and no entry is created.\<close>

fun map_store :: "'k \<Rightarrow> 'v \<Rightarrow> ('k \<times> 'v) list \<Rightarrow> ('k \<times> 'v) list" where
  "map_store k v [] = []"
| "map_store k v ((k', v') # m) =
     (if k = k' then (k', v) # m else (k', v') # map_store k v m)"

subsection \<open>BoardSquare\<close>

record BoardSquare =
  val :: int   \<comment> \<open>the field \<open>value\<close>: 0 empty, 1 player X, 2 player O\<close>

definition BoardSquare_new :: BoardSquare where
  "BoardSquare_new = \<lparr>val = 0\<rparr>"

definition setPiece :: "int \<Rightarrow> BoardSquare \<Rightarrow> error + BoardSquare" where
  "setPiece player sq =
     (if val sq \<noteq> 0 then Inl OccupiedCellError else Inr (sq\<lparr>val := player\<rparr>))"

definition flipPiece :: "BoardSquare \<Rightarrow> error + BoardSquare" where
  "flipPiece sq =
     (if val sq = 0 then Inl EmptyCellFlipError
      else Inr (sq\<lparr>val := (if val sq = 1 then 2 else 1)\<rparr>))"

definition getValue :: "BoardSquare \<Rightarrow> int" where
  "getValue sq = val sq"

definition isEmpty :: "BoardSquare \<Rightarrow> bool" where
  "isEmpty sq \<longleftrightarrow> val sq = 0"

subsection \<open>Board\<close>

record Board =
  board :: "(pos \<times> BoardSquare) list"
  maxBoardSize :: int

text \<open>\<open>board.at(p).f()\<close> for a mutating member \<open>f\<close> of the square: \<open>at\<close> throws for a
  missing key, \<open>f\<close> may throw before it writes; otherwise the square is updated in place.\<close>

definition at_apply :: "pos \<Rightarrow> (BoardSquare \<Rightarrow> error + BoardSquare) \<Rightarrow> Board \<Rightarrow> error + Board" where
  "at_apply p f b =
     (case map_of (board b) p of
        None \<Rightarrow> Inl out_of_range
      | Some sq \<Rightarrow>
          (case f sq of
             Inl e \<Rightarrow> Inl e
           | Inr sq' \<Rightarrow> Inr (b\<lparr>board := map_store p sq' (board b)\<rparr>)))"

text \<open>The \<open>try\<close> block of the constructor: four \<open>setPiece\<close> calls; the handler only
  prints, so a throw leaves the board as the calls before it made it.\<close>

definition place_center :: "int \<Rightarrow> Board \<Rightarrow> Board" where
  "place_center center b0 =
     (case at_apply (center - 1, center - 1) (setPiece 1) b0 of
        Inl e \<Rightarrow> b0
      | Inr b1 \<Rightarrow>
     (case at_apply (center - 1, center) (setPiece 2) b1 of
        Inl e \<Rightarrow> b1
      | Inr b2 \<Rightarrow>
     (case at_apply (center, center - 1) (setPiece 2) b2 of
        Inl e \<Rightarrow> b2
      | Inr b3 \<Rightarrow>
     (case at_apply (center, center) (setPiece 1) b3 of
        Inl e \<Rightarrow> b3
      | Inr b4 \<Rightarrow> b4))))"

text \<open>The nested \<open>for\<close> statements of the constructor, rows outside, columns inside.\<close>

definition empty_squares :: "int \<Rightarrow> (pos \<times> BoardSquare) list" where
  "empty_squares sz =
     fold (\<lambda>row m. fold (\<lambda>col m'. map_assign (row, col) BoardSquare_new m') [0..sz - 1] m)
          [0..sz - 1] []"

text \<open>The constructor \<open>Board(int size)\<close>. The division is C++ integer division of a
  value that the guard has made at least 4, where truncation and floor agree.\<close>

definition Board_new :: "int \<Rightarrow> error + Board" where
  "Board_new sz =
     (if sz < 4 then Inl invalid_argument
      else Inr (place_center (sz div 2) \<lparr>board = empty_squares sz, maxBoardSize = sz\<rparr>))"

text \<open>\<open>std::for_each\<close> over \<open>toFlip\<close>, flipping each square; stops at the first throw.\<close>

fun flip_each :: "pos list \<Rightarrow> Board \<Rightarrow> error option \<times> Board" where
  "flip_each [] b = (None, b)"
| "flip_each (flipPosition # rest) b =
     (case at_apply flipPosition flipPiece b of
        Inl e \<Rightarrow> (Some e, b)
      | Inr b' \<Rightarrow> flip_each rest b')"

text \<open>\<open>placePiece\<close> returns the exception thrown, if any, and the board as it is left.\<close>

definition placePiece :: "pos \<Rightarrow> int \<Rightarrow> pos list \<Rightarrow> Board \<Rightarrow> error option \<times> Board" where
  "placePiece position player toFlip b =
     (case at_apply position (setPiece player) b of
        Inl e \<Rightarrow> (Some e, b)
      | Inr b' \<Rightarrow> flip_each toFlip b')"

definition getBoardPlaceValue :: "Board \<Rightarrow> pos \<Rightarrow> error + int" where
  "getBoardPlaceValue b position =
     (case map_of (board b) position of
        None \<Rightarrow> Inl out_of_range
      | Some sq \<Rightarrow> Inr (getValue sq))"

subsection \<open>The capture scan\<close>

definition advance :: "pos \<Rightarrow> pos \<Rightarrow> pos" where
  "advance position direction = (fst position + fst direction, snd position + snd direction)"

definition in_bounds :: "Board \<Rightarrow> pos \<Rightarrow> bool" where
  "in_bounds b position \<longleftrightarrow>
     fst position \<ge> 0 \<and> fst position < maxBoardSize b \<and>
     snd position \<ge> 0 \<and> snd position < maxBoardSize b"

text \<open>The \<open>while\<close> loop of \<open>findFlippablePieces\<close>. The result is the pair of
  \<open>piecesToFlip\<close> and \<open>toFlip\<close> at the exit of the loop.\<close>

partial_function (option) scan_loop ::
  "Board \<Rightarrow> int \<Rightarrow> int \<Rightarrow> pos \<Rightarrow> pos \<Rightarrow> pos list \<Rightarrow> (error + bool \<times> pos list) option" where
  "scan_loop b player opponent direction position toFlip =
     (if in_bounds b position then
        (case map_of (board b) position of
           None \<Rightarrow> Some (Inl out_of_range)
         | Some sq \<Rightarrow>
             if getValue sq = opponent then
               scan_loop b player opponent direction (advance position direction)
                 (set_insert position toFlip)
             else if getValue sq = player then Some (Inr (toFlip \<noteq> [], toFlip))
             else Some (Inr (False, toFlip)))
      else Some (Inr (False, toFlip)))"

declare scan_loop.simps [code]

text \<open>\<open>findFlippablePieces\<close>: the out-parameter \<open>toFlip\<close> is passed in and returned
  next to the boolean result.\<close>

definition findFlippablePieces ::
  "Board \<Rightarrow> pos \<Rightarrow> int \<Rightarrow> pos \<Rightarrow> pos list \<Rightarrow> (error + bool \<times> pos list) option" where
  "findFlippablePieces b position player direction toFlip0 =
     and_then
       (scan_loop b player (if player = 1 then 2 else 1) direction
          (advance position direction) [])
       (\<lambda>(piecesToFlip, toFlip).
          Some (Inr (piecesToFlip, if \<not> piecesToFlip then [] else toFlip)))"

subsection \<open>The move generator\<close>

text \<open>The \<open>for\<close> loop over \<open>directions\<close> inside \<open>getValidMoves\<close>, accumulating
  \<open>totalFlippablePieces\<close>.\<close>

fun scan_directions ::
  "Board \<Rightarrow> pos \<Rightarrow> int \<Rightarrow> pos list \<Rightarrow> pos list \<Rightarrow> (error + pos list) option" where
  "scan_directions b position player [] totalFlippablePieces =
     Some (Inr totalFlippablePieces)"
| "scan_directions b position player (direction # rest) totalFlippablePieces =
     and_then (findFlippablePieces b position player direction [])
       (\<lambda>(found, toFlip).
          scan_directions b position player rest
            (if found then set_insert_range toFlip totalFlippablePieces
             else totalFlippablePieces))"

text \<open>The \<open>while\<close>/\<open>find_if\<close> loop of \<open>getValidMoves\<close>: the entries of the board are
  visited in key order and the occupied ones are skipped.\<close>

fun valid_moves_loop ::
  "Board \<Rightarrow> int \<Rightarrow> (pos \<times> BoardSquare) list \<Rightarrow> (pos \<times> pos list) list \<Rightarrow>
     (error + (pos \<times> pos list) list) option" where
  "valid_moves_loop b player [] validMovesMap = Some (Inr validMovesMap)"
| "valid_moves_loop b player ((position, sq) # rest) validMovesMap =
     (if isEmpty sq then
        and_then (scan_directions b position player directions [])
          (\<lambda>totalFlippablePieces.
             valid_moves_loop b player rest
               (if totalFlippablePieces \<noteq> []
                then map_assign position totalFlippablePieces validMovesMap
                else validMovesMap))
      else valid_moves_loop b player rest validMovesMap)"

definition getValidMoves :: "Board \<Rightarrow> int \<Rightarrow> (error + (pos \<times> pos list) list) option" where
  "getValidMoves b player = valid_moves_loop b player (board b) []"

subsection \<open>The end-of-game report\<close>

text \<open>The two \<open>std::count_if\<close> calls of \<open>showWinner\<close> count the squares holding a value.\<close>

definition count_value :: "Board \<Rightarrow> int \<Rightarrow> int" where
  "count_value b v = int (length (filter (\<lambda>entry. getValue (snd entry) = v) (board b)))"

text \<open>The line \<open>showWinner\<close> prints last.\<close>

datatype verdict = Player_X_wins int int | Player_O_wins int int | Draw int int

definition showWinner :: "Board \<Rightarrow> verdict" where
  "showWinner b =
     (let countX = count_value b 1; countO = count_value b 2
      in if countX > countO then Player_X_wins countX countO
         else if countO > countX then Player_O_wins countO countX
         else Draw countX countO)"

subsection \<open>The heuristic opponent\<close>

text \<open>The list \<open>moves\<close> of \<open>getAIMove\<close> after the first loop: the flip count and the
  position of every entry, in the iteration order of the map.\<close>

definition flip_counts :: "(pos \<times> pos list) list \<Rightarrow> (int \<times> pos) list" where
  "flip_counts validMoves = map (\<lambda>move. (int (length (snd move)), fst move)) validMoves"

text \<open>\<open>moves.sort\<close> with the comparator \<open>a.first > b.first\<close>: \<open>std::list::sort\<close> is
  stable, and so is \<open>sort_key\<close>; descending order is ascending order of the negated count.\<close>

definition sort_moves :: "(int \<times> pos) list \<Rightarrow> (int \<times> pos) list" where
  "sort_moves moves = sort_key (\<lambda>move. - fst move) moves"

text \<open>\<open>moveQueue.top()\<close> after every element of a non-empty list was pushed: the
  greatest element under \<open>std::less\<close>, which compares the pairs lexicographically.\<close>

definition queue_top :: "(int \<times> pos) list \<Rightarrow> int \<times> pos" where
  "queue_top moves = fold max (tl moves) (hd moves)"

text \<open>\<open>getAIMove\<close>. The two calls of \<open>std::rand\<close> are the parameters \<open>rand1\<close> and
  \<open>rand2\<close>. On an empty map both branches have undefined behaviour (a remainder by zero,
  \<open>top\<close> of an empty queue): the result is \<open>None\<close>.\<close>

definition getAIMove :: "nat \<Rightarrow> nat \<Rightarrow> (pos \<times> pos list) list \<Rightarrow> pos option" where
  "getAIMove rand1 rand2 validMoves =
     (let moves = sort_moves (flip_counts validMoves)
      in if moves = [] then None
         else if rand1 mod 2 = 0 then Some (snd (moves ! (rand2 mod length moves)))
         else Some (snd (queue_top moves)))"

subsection \<open>The turn loop\<close>

record PlayerMove =
  thePlayer :: int
  theLocation :: pos

text \<open>The local variables of \<open>playGame\<close> that the loop reads and writes. The stack
  \<open>gameHistory\<close> is a list with its top at the head.\<close>

record Game =
  currentPlayer :: int
  nextPlayer :: int
  prevPlayerMoved :: bool
  theBoard :: Board
  gameHistory :: "PlayerMove list"

text \<open>The state before the loop, for a board size the prompt has accepted.\<close>

definition new_game :: "Board \<Rightarrow> Game" where
  "new_game b =
     \<lparr>currentPlayer = 1, nextPlayer = 2, prevPlayerMoved = True, theBoard = b,
      gameHistory = []\<rparr>"

text \<open>How one iteration of \<open>while (true)\<close> ends: \<open>continue\<close> or the end of the body
  (the loop goes on), or \<open>break\<close>.\<close>

datatype turn_result = Continue Game | Break Game

text \<open>\<open>std::swap(currentPlayer, nextPlayer)\<close>.\<close>

definition swap_players :: "Game \<Rightarrow> Game" where
  "swap_players g = g\<lparr>currentPlayer := nextPlayer g, nextPlayer := currentPlayer g\<rparr>"

text \<open>One iteration of the loop of \<open>playGame\<close>. The parameter \<open>playerMove\<close> is the value
  that \<open>getAIMove\<close> or \<open>getPlayerMove\<close> returns in this iteration; it is not read when
  the player has no valid move. An exception is not caught by \<open>playGame\<close>.\<close>

definition turn :: "pos \<Rightarrow> Game \<Rightarrow> (error + turn_result) option" where
  "turn playerMove g =
     and_then (getValidMoves (theBoard g) (currentPlayer g))
       (\<lambda>validMoves.
          if length validMoves = 0 then
            (if \<not> prevPlayerMoved g then Some (Inr (Break g))
             else Some (Inr (Continue (swap_players (g\<lparr>prevPlayerMoved := False\<rparr>)))))
          else
            (case map_of validMoves playerMove of
               None \<Rightarrow> Some (Inl out_of_range)
             | Some toFlip \<Rightarrow>
                 (case placePiece playerMove (currentPlayer g) toFlip (theBoard g) of
                    (Some e, b') \<Rightarrow> Some (Inl e)
                  | (None, b') \<Rightarrow>
                      Some (Inr (Continue (swap_players
                        (g\<lparr>prevPlayerMoved := True, theBoard := b',
                           gameHistory :=
                             \<lparr>thePlayer = currentPlayer g, theLocation = playerMove\<rparr>
                               # gameHistory g\<rparr>)))))))"

text \<open>Replaying a game: one iteration per element of the list, as long as the loop
  goes on.\<close>

fun turns :: "pos list \<Rightarrow> Game \<Rightarrow> (error + turn_result) option" where
  "turns [] g = Some (Inr (Continue g))"
| "turns (playerMove # rest) g =
     (case turn playerMove g of
        Some (Inr (Continue g')) \<Rightarrow> turns rest g'
      | r \<Rightarrow> r)"

subsection \<open>Well-formed boards\<close>

text \<open>The keys of an \<open>n\<close> by \<open>n\<close> board in the iteration order of the map.\<close>

definition all_positions :: "int \<Rightarrow> pos list" where
  "all_positions n = concat (map (\<lambda>row. map (Pair row) [0..n - 1]) [0..n - 1])"

text \<open>The board holds exactly one square for every position of the grid. The constructor
  establishes this and no member function adds or removes a key.\<close>

definition Board_ok :: "Board \<Rightarrow> bool" where
  "Board_ok b \<longleftrightarrow> map fst (board b) = all_positions (maxBoardSize b)"

subsection \<open>Vocabulary of the statements\<close>

text \<open>The position \<open>k\<close> steps away from \<open>origin\<close> in a direction.\<close>

definition ray :: "pos \<Rightarrow> pos \<Rightarrow> nat \<Rightarrow> pos" where
  "ray origin direction k =
     (fst origin + int k * fst direction, snd origin + int k * snd direction)"

text \<open>The position is on the board and its square holds the value \<open>v\<close>.\<close>

definition owned :: "Board \<Rightarrow> int \<Rightarrow> pos \<Rightarrow> bool" where
  "owned b v p \<longleftrightarrow> in_bounds b p \<and> map_option val (map_of (board b) p) = Some v"

definition opponent_of :: "int \<Rightarrow> int" where
  "opponent_of player = (if player = 1 then 2 else 1)"

text \<open>From \<open>origin\<close> in the direction there are \<open>k \<ge> 1\<close> squares of the opponent and
  then a square of the player (the anchor).\<close>

definition capture_run :: "Board \<Rightarrow> int \<Rightarrow> pos \<Rightarrow> pos \<Rightarrow> nat \<Rightarrow> bool" where
  "capture_run b player origin direction k \<longleftrightarrow>
     1 \<le> k \<and> (\<forall>i \<in> {1..k}. owned b (opponent_of player) (ray origin direction i))
       \<and> owned b player (ray origin direction (Suc k))"

text \<open>The starting position on the 4 by 4 board.\<close>

definition start4 :: Board where
  "start4 = \<lparr>board =
     [((0, 0), \<lparr>val = 0\<rparr>), ((0, 1), \<lparr>val = 0\<rparr>), ((0, 2), \<lparr>val = 0\<rparr>), ((0, 3), \<lparr>val = 0\<rparr>),
      ((1, 0), \<lparr>val = 0\<rparr>), ((1, 1), \<lparr>val = 1\<rparr>), ((1, 2), \<lparr>val = 2\<rparr>), ((1, 3), \<lparr>val = 0\<rparr>),
      ((2, 0), \<lparr>val = 0\<rparr>), ((2, 1), \<lparr>val = 2\<rparr>), ((2, 2), \<lparr>val = 1\<rparr>), ((2, 3), \<lparr>val = 0\<rparr>),
      ((3, 0), \<lparr>val = 0\<rparr>), ((3, 1), \<lparr>val = 0\<rparr>), ((3, 2), \<lparr>val = 0\<rparr>), ((3, 3), \<lparr>val = 0\<rparr>)],
     maxBoardSize = 4\<rparr>"

text \<open>The four squares the constructor occupies around \<open>center\<close>, as a finite map.\<close>

definition center_cells :: "int \<Rightarrow> pos \<rightharpoonup> BoardSquare" where
  "center_cells c = [(c - 1, c - 1) \<mapsto> \<lparr>val = 1\<rparr>, (c - 1, c) \<mapsto> \<lparr>val = 2\<rparr>,
     (c, c - 1) \<mapsto> \<lparr>val = 2\<rparr>, (c, c) \<mapsto> \<lparr>val = 1\<rparr>]"


text \<open>The \<open>std::set\<close> holding the first \<open>k\<close> positions of a ray past its origin.\<close>

definition run_cells :: "pos \<Rightarrow> pos \<Rightarrow> nat \<Rightarrow> pos list" where
  "run_cells origin d k = fold set_insert (map (ray origin d) [1..<Suc k]) []"

text \<open>The positions one scan reports: the set left in \<open>toFlip\<close> by \<open>findFlippablePieces\<close>.\<close>

definition scan_result :: "Board \<Rightarrow> pos \<Rightarrow> int \<Rightarrow> pos \<Rightarrow> pos set" where
  "scan_result b position player direction =
     (case findFlippablePieces b position player direction [] of
        Some (Inr (found, toFlip)) \<Rightarrow> set toFlip
      | _ \<Rightarrow> {})"

text \<open>The union of the scan results of the eight directions.\<close>

definition scan_union :: "Board \<Rightarrow> pos \<Rightarrow> int \<Rightarrow> pos set" where
  "scan_union b position player = (\<Union>direction \<in> set directions. scan_result b position player direction)"

text \<open>The set \<open>totalFlippablePieces\<close> that \<open>getValidMoves\<close> computes for a position.\<close>

definition captures :: "Board \<Rightarrow> pos \<Rightarrow> int \<Rightarrow> pos list" where
  "captures b position player =
     (case scan_directions b position player directions [] of
        Some (Inr totalFlippablePieces) \<Rightarrow> totalFlippablePieces
      | _ \<Rightarrow> [])"

text \<open>The tie-break of the specification: among the keys whose set has the greatest size,
  the one met first when the keys are visited in row-major order.\<close>

definition first_max_key :: "(pos \<times> pos list) list \<Rightarrow> pos" where
  "first_max_key validMoves =
     fst (hd (filter (\<lambda>move. \<forall>other \<in> set validMoves. length (snd other) \<le> length (snd move))
                validMoves))"

text \<open>The moves of player X on the 4 by 4 starting position.\<close>

definition moves4 :: "(pos \<times> pos list) list" where
  "moves4 = [((0, 2), [(1, 2)]), ((1, 3), [(1, 2)]), ((2, 0), [(2, 1)]), ((3, 1), [(2, 1)])]"

text \<open>The turn of the state finds no valid move for the current player.\<close>

definition no_valid_moves :: "Game \<Rightarrow> bool" where
  "no_valid_moves g \<longleftrightarrow> getValidMoves (theBoard g) (currentPlayer g) = Some (Inr [])"

text \<open>The state after a pass, and after a move that left the board \<open>b'\<close>.\<close>

definition passed :: "Game \<Rightarrow> Game" where
  "passed g = swap_players (g\<lparr>prevPlayerMoved := False\<rparr>)"

definition moved :: "pos \<Rightarrow> Board \<Rightarrow> Game \<Rightarrow> Game" where
  "moved playerMove b' g =
     swap_players (g\<lparr>prevPlayerMoved := True, theBoard := b',
       gameHistory := \<lparr>thePlayer = currentPlayer g, theLocation = playerMove\<rparr> # gameHistory g\<rparr>)"

text \<open>The 4 by 4 game replayed below, after its thirteenth turn: player O is to move.\<close>

definition endgame4 :: Game where
  "endgame4 =
     \<lparr>currentPlayer = 2, nextPlayer = 1, prevPlayerMoved = True,
      theBoard = \<lparr>board =
        [((0, 0), \<lparr>val = 1\<rparr>), ((0, 1), \<lparr>val = 1\<rparr>), ((0, 2), \<lparr>val = 1\<rparr>), ((0, 3), \<lparr>val = 2\<rparr>),
         ((1, 0), \<lparr>val = 1\<rparr>), ((1, 1), \<lparr>val = 1\<rparr>), ((1, 2), \<lparr>val = 1\<rparr>), ((1, 3), \<lparr>val = 2\<rparr>),
         ((2, 0), \<lparr>val = 1\<rparr>), ((2, 1), \<lparr>val = 1\<rparr>), ((2, 2), \<lparr>val = 1\<rparr>), ((2, 3), \<lparr>val = 2\<rparr>),
         ((3, 0), \<lparr>val = 1\<rparr>), ((3, 1), \<lparr>val = 2\<rparr>), ((3, 2), \<lparr>val = 1\<rparr>), ((3, 3), \<lparr>val = 1\<rparr>)],
        maxBoardSize = 4\<rparr>,
      gameHistory =
        [\<lparr>thePlayer = 1, theLocation = (3, 3)\<rparr>, \<lparr>thePlayer = 2, theLocation = (3, 1)\<rparr>,
         \<lparr>thePlayer = 1, theLocation = (3, 2)\<rparr>, \<lparr>thePlayer = 1, theLocation = (2, 0)\<rparr>,
         \<lparr>thePlayer = 2, theLocation = (1, 0)\<rparr>, \<lparr>thePlayer = 1, theLocation = (3, 0)\<rparr>,
         \<lparr>thePlayer = 2, theLocation = (2, 3)\<rparr>, \<lparr>thePlayer = 1, theLocation = (1, 3)\<rparr>,
         \<lparr>thePlayer = 2, theLocation = (0, 3)\<rparr>, \<lparr>thePlayer = 1, theLocation = (0, 0)\<rparr>,
         \<lparr>thePlayer = 2, theLocation = (0, 1)\<rparr>, \<lparr>thePlayer = 1, theLocation = (0, 2)\<rparr>]\<rparr>"

text \<open>Every square of the board holds 0, 1 or 2.\<close>

definition cells_ok :: "Board \<Rightarrow> bool" where
  "cells_ok b \<longleftrightarrow> (\<forall>entry \<in> set (board b). val (snd entry) \<in> {0, 1, 2})"

text \<open>The states of the loop of \<open>playGame\<close> for a board of size \<open>n\<close>: the state before the
  loop, and every state in which an iteration hands over to the next.\<close>

inductive reachable :: "int \<Rightarrow> Game \<Rightarrow> bool" for n :: int where
  start: "Board_new n = Inr b \<Longrightarrow> reachable n (new_game b)"
| step: "reachable n g \<Longrightarrow> turn playerMove g = Some (Inr (Continue g')) \<Longrightarrow> reachable n g'"

text \<open>What every iteration of the loop keeps.\<close>

definition game_inv :: "int \<Rightarrow> Game \<Rightarrow> bool" where
  "game_inv n g \<longleftrightarrow>
     Board_ok (theBoard g) \<and> maxBoardSize (theBoard g) = n \<and> cells_ok (theBoard g) \<and> 4 \<le> n
     \<and> (currentPlayer g = 1 \<and> nextPlayer g = 2 \<or> currentPlayer g = 2 \<and> nextPlayer g = 1)"

section \<open>Properties of the containers\<close>

lemma set_set_insert: "set (set_insert p s) = insert p (set s)"
  by (induction s) auto

lemma sorted_set_insert: "sorted_wrt (<) s \<Longrightarrow> sorted_wrt (<) (set_insert p s)"
  by (induction s) (auto simp: set_set_insert not_less_iff_gr_or_eq intro: less_trans)

lemma set_insert_range: "set (set_insert_range xs s) = set xs \<union> set s"
  unfolding set_insert_range_def by (induction xs arbitrary: s) (auto simp: set_set_insert)

lemma sorted_insert_range: "sorted_wrt (<) s \<Longrightarrow> sorted_wrt (<) (set_insert_range xs s)"
  unfolding set_insert_range_def by (induction xs arbitrary: s) (auto simp: sorted_set_insert)

lemma map_of_map_assign: "map_of (map_assign k v m) = (map_of m)(k \<mapsto> v)"
  by (induction m) (auto simp: fun_eq_iff)

lemma keys_map_assign: "fst ` set (map_assign k v m) = insert k (fst ` set m)"
  by (induction m) (force split: if_splits)+

lemma sorted_map_assign:
  "sorted_wrt (<) (map fst m) \<Longrightarrow> sorted_wrt (<) (map fst (map_assign k v m))"
proof (induction m)
  case Nil
  then show ?case by simp
next
  case (Cons e m)
  obtain k' v' where e: "e = (k', v')" by (cases e)
  from Cons.prems e have rest: "sorted_wrt (<) (map fst m)" and low: "\<forall>x \<in> fst ` set m. k' < x"
    by auto
  show ?case
  proof (cases "k < k'")
    case True
    with low have "\<forall>x \<in> fst ` set m. k < x" by (auto intro: less_trans)
    with True rest low e show ?thesis by auto
  next
    case False
    show ?thesis
    proof (cases "k = k'")
      case True
      with rest low e show ?thesis by auto
    next
      case ne: False
      with False have "k' < k" by auto
      with False ne rest low e Cons.IH show ?thesis by (auto simp: keys_map_assign)
    qed
  qed
qed

lemma map_assign_last:
  "\<forall>k' \<in> fst ` set m. k' < k \<Longrightarrow> map_assign k v m = m @ [(k, v)]"
  by (induction m) (auto simp: less_le_not_le)

lemma keys_map_store: "map fst (map_store k v m) = map fst m"
  by (induction m) auto

lemma map_of_map_store:
  "map_of (map_store k v m) = (if k \<in> fst ` set m then (map_of m)(k \<mapsto> v) else map_of m)"
  by (induction m) (force simp: fun_eq_iff image_iff)+

lemma fold_assign_row:
  "sorted_wrt (<) (map fst m @ map f cs) \<Longrightarrow>
   fold (\<lambda>c m'. map_assign (f c) v m') cs m = m @ map (\<lambda>c. (f c, v)) cs"
proof (induction cs arbitrary: m)
  case Nil
  then show ?case by simp
next
  case (Cons c cs)
  from Cons.prems have "\<forall>k' \<in> fst ` set m. k' < f c"
    by (auto simp: sorted_wrt_append)
  then have step: "map_assign (f c) v m = m @ [(f c, v)]"
    by (rule map_assign_last)
  from Cons.prems have "sorted_wrt (<) (map fst (m @ [(f c, v)]) @ map f cs)"
    by simp
  from Cons.IH [OF this] step show ?case by simp
qed

lemma sorted_row:
  "sorted_wrt (<) cs \<Longrightarrow> sorted_wrt (<) (map (Pair (r::'a::linorder)) (cs::'b::linorder list))"
  by (induction cs) auto

lemma sorted_positions:
  "sorted_wrt (<) (rs::'a::linorder list) \<Longrightarrow> sorted_wrt (<) (cs::'b::linorder list) \<Longrightarrow>
   sorted_wrt (<) (concat (map (\<lambda>row. map (Pair row) cs) rs))"
  by (induction rs) (auto simp: sorted_wrt_append sorted_row)

lemma fold_assign_grid:
  "sorted_wrt (<) (map fst m @ concat (map (\<lambda>row. map (Pair row) cs) rs)) \<Longrightarrow>
   fold (\<lambda>row m'. fold (\<lambda>col m''. map_assign (row, col) v m'') cs m') rs m
     = m @ map (\<lambda>p. (p, v)) (concat (map (\<lambda>row. map (Pair row) cs) rs))"
proof (induction rs arbitrary: m)
  case Nil
  then show ?case by simp
next
  case (Cons r rs)
  from Cons.prems have "sorted_wrt (<) (map fst m @ map (Pair r) cs)"
    by (auto simp: sorted_wrt_append)
  then have row: "fold (\<lambda>col m''. map_assign (r, col) v m'') cs m = m @ map (\<lambda>c. ((r, c), v)) cs"
    by (rule fold_assign_row [where f = "Pair r"])
  from Cons.prems
  have "sorted_wrt (<) (map fst (m @ map (\<lambda>c. ((r, c), v)) cs) @ concat (map (\<lambda>row. map (Pair row) cs) rs))"
    by (simp add: comp_def)
  from Cons.IH [OF this] row show ?case by (simp add: comp_def)
qed

lemma sorted_all_positions: "sorted_wrt (<) (all_positions n)"
  unfolding all_positions_def by (rule sorted_positions) simp_all

lemma empty_squares_eq: "empty_squares n = map (\<lambda>p. (p, BoardSquare_new)) (all_positions n)"
  unfolding empty_squares_def all_positions_def
  using fold_assign_grid [of "[]" "[0..n - 1]" "[0..n - 1]" BoardSquare_new]
    sorted_positions [of "[0..n - 1]" "[0..n - 1]"]
  by simp

lemma set_all_positions: "set (all_positions n) = {p. 0 \<le> fst p \<and> fst p < n \<and> 0 \<le> snd p \<and> snd p < n}"
  unfolding all_positions_def by auto

lemma length_all_positions: "length (all_positions n) = nat n * nat n"
  unfolding all_positions_def by (simp add: length_concat comp_def sum_list_triv)

section \<open>The constructor\<close>

lemma map_of_keys_iff: "(\<exists>v. map_of m k = Some v) \<longleftrightarrow> k \<in> set (map fst m)"
  by (induction m) auto

lemma Board_ok_lookup: "Board_ok b \<Longrightarrow> (\<exists>sq. map_of (board b) p = Some sq) \<longleftrightarrow> in_bounds b p"
  by (simp add: map_of_keys_iff Board_ok_def set_all_positions in_bounds_def)

lemma map_of_store_present:
  "map_of m k = Some v' \<Longrightarrow> map_of (map_store k v m) = (map_of m)(k \<mapsto> v)"
  using map_of_keys_iff [of m k] by (simp add: map_of_map_store)

lemma at_apply_ok:
  "map_of (board b) p = Some sq \<Longrightarrow> f sq = Inr sq' \<Longrightarrow>
   at_apply p f b = Inr (b\<lparr>board := map_store p sq' (board b)\<rparr>)"
  by (simp add: at_apply_def)

lemma at_apply_setPiece:
  "map_of (board b) p = Some sq \<Longrightarrow> val sq = 0 \<Longrightarrow>
   at_apply p (setPiece player) b = Inr (b\<lparr>board := map_store p (sq\<lparr>val := player\<rparr>) (board b)\<rparr>)"
  by (simp add: at_apply_def setPiece_def)

lemma map_of_empty_squares:
  "map_of (empty_squares n) p = (if p \<in> set (all_positions n) then Some \<lparr>val = 0\<rparr> else None)"
  by (simp add: empty_squares_eq map_of_map_restrict restrict_map_def BoardSquare_new_def comp_def)

lemma place_center_empty:
  assumes "(c - 1, c - 1) \<in> set (all_positions n)" "(c - 1, c) \<in> set (all_positions n)"
    "(c, c - 1) \<in> set (all_positions n)" "(c, c) \<in> set (all_positions n)"
  shows "\<exists>m. place_center c \<lparr>board = empty_squares n, maxBoardSize = n\<rparr> = \<lparr>board = m, maxBoardSize = n\<rparr>
     \<and> map fst m = all_positions n
     \<and> map_of m = map_of (empty_squares n) ++ center_cells c"
proof -
  let ?b0 = "\<lparr>board = empty_squares n, maxBoardSize = n\<rparr>"
  let ?m1 = "map_store (c - 1, c - 1) \<lparr>val = 1\<rparr> (empty_squares n)"
  let ?m2 = "map_store (c - 1, c) \<lparr>val = 2\<rparr> ?m1"
  let ?m3 = "map_store (c, c - 1) \<lparr>val = 2\<rparr> ?m2"
  let ?m4 = "map_store (c, c) \<lparr>val = 1\<rparr> ?m3"
  have e: "\<And>p. p \<in> set (all_positions n) \<Longrightarrow> map_of (empty_squares n) p = Some \<lparr>val = 0\<rparr>"
    by (simp add: map_of_empty_squares)
  have s1: "at_apply (c - 1, c - 1) (setPiece 1) ?b0 = Inr \<lparr>board = ?m1, maxBoardSize = n\<rparr>"
    using at_apply_setPiece [of ?b0 "(c - 1, c - 1)" "\<lparr>val = 0\<rparr>" 1] e [OF assms(1)] by simp
  have l1: "map_of ?m1 = (map_of (empty_squares n))((c - 1, c - 1) \<mapsto> \<lparr>val = 1\<rparr>)"
    by (rule map_of_store_present) (rule e [OF assms(1)])
  have s2: "at_apply (c - 1, c) (setPiece 2) \<lparr>board = ?m1, maxBoardSize = n\<rparr> = Inr \<lparr>board = ?m2, maxBoardSize = n\<rparr>"
    using at_apply_setPiece [of "\<lparr>board = ?m1, maxBoardSize = n\<rparr>" "(c - 1, c)" "\<lparr>val = 0\<rparr>" 2] e [OF assms(2)] l1 by simp
  have l2: "map_of ?m2 = (map_of ?m1)((c - 1, c) \<mapsto> \<lparr>val = 2\<rparr>)"
    by (rule map_of_store_present [where v' = "\<lparr>val = 0\<rparr>"]) (simp add: l1 e [OF assms(2)])
  have s3: "at_apply (c, c - 1) (setPiece 2) \<lparr>board = ?m2, maxBoardSize = n\<rparr> = Inr \<lparr>board = ?m3, maxBoardSize = n\<rparr>"
    using at_apply_setPiece [of "\<lparr>board = ?m2, maxBoardSize = n\<rparr>" "(c, c - 1)" "\<lparr>val = 0\<rparr>" 2] e [OF assms(3)] l1 l2 by simp
  have l3: "map_of ?m3 = (map_of ?m2)((c, c - 1) \<mapsto> \<lparr>val = 2\<rparr>)"
    by (rule map_of_store_present [where v' = "\<lparr>val = 0\<rparr>"]) (simp add: l1 l2 e [OF assms(3)])
  have s4: "at_apply (c, c) (setPiece 1) \<lparr>board = ?m3, maxBoardSize = n\<rparr> = Inr \<lparr>board = ?m4, maxBoardSize = n\<rparr>"
    using at_apply_setPiece [of "\<lparr>board = ?m3, maxBoardSize = n\<rparr>" "(c, c)" "\<lparr>val = 0\<rparr>" 1] e [OF assms(4)] l1 l2 l3 by simp
  have l4: "map_of ?m4 = (map_of ?m3)((c, c) \<mapsto> \<lparr>val = 1\<rparr>)"
    by (rule map_of_store_present [where v' = "\<lparr>val = 0\<rparr>"]) (simp add: l1 l2 l3 e [OF assms(4)])
  have pc: "place_center c ?b0 = \<lparr>board = ?m4, maxBoardSize = n\<rparr>"
    by (simp add: place_center_def s1 s2 s3 s4)
  have keys: "map fst ?m4 = all_positions n"
    by (simp add: keys_map_store empty_squares_eq comp_def)
  have "map_of ?m4 = map_of (empty_squares n) ++ center_cells c"
    by (simp add: l1 l2 l3 l4 center_cells_def fun_eq_iff map_add_def)
  with pc keys show ?thesis by blast
qed

lemma center_in_grid:
  assumes "4 \<le> n"
  shows "(n div 2 - 1, n div 2 - 1) \<in> set (all_positions n)" "(n div 2 - 1, n div 2) \<in> set (all_positions n)"
    "(n div 2, n div 2 - 1) \<in> set (all_positions n)" "(n div 2, n div 2) \<in> set (all_positions n)"
  using assms by (auto simp: set_all_positions)

lemma Board_new_ok:
  assumes "4 \<le> n"
  shows "\<exists>b. Board_new n = Inr b \<and> maxBoardSize b = n \<and> Board_ok b
    \<and> map_of (board b) = map_of (empty_squares n) ++ center_cells (n div 2)"
  using place_center_empty [OF center_in_grid [OF assms]] assms
  by (auto simp: Board_new_def Board_ok_def)

text \<open>
  C6. For every size \<open>N \<ge> 4\<close> the constructor returns a board of \<open>N * N\<close> squares
  on which exactly four squares are occupied: with \<open>c = N div 2\<close>, the squares
  \<open>(c-1,c-1)\<close> and \<open>(c,c)\<close> hold player X (1), the squares \<open>(c-1,c)\<close> and
  \<open>(c,c-1)\<close> hold player O (2), and every other square is empty. Nothing in the
  statement depends on the parity of \<open>N\<close>.
\<close>

theorem C6_initial_position:
  assumes "4 \<le> N"
  shows "\<exists>b. Board_new N = Inr b \<and> maxBoardSize b = N
     \<and> map fst (board b) = all_positions N \<and> length (board b) = nat N * nat N
     \<and> map_of (board b) (N div 2 - 1, N div 2 - 1) = Some \<lparr>val = 1\<rparr>
     \<and> map_of (board b) (N div 2, N div 2) = Some \<lparr>val = 1\<rparr>
     \<and> map_of (board b) (N div 2 - 1, N div 2) = Some \<lparr>val = 2\<rparr>
     \<and> map_of (board b) (N div 2, N div 2 - 1) = Some \<lparr>val = 2\<rparr>
     \<and> (\<forall>p \<in> set (all_positions N) -
            {(N div 2 - 1, N div 2 - 1), (N div 2, N div 2), (N div 2 - 1, N div 2), (N div 2, N div 2 - 1)}.
          map_of (board b) p = Some \<lparr>val = 0\<rparr>)
     \<and> {p. \<exists>sq. map_of (board b) p = Some sq \<and> \<not> isEmpty sq} =
          {(N div 2 - 1, N div 2 - 1), (N div 2, N div 2), (N div 2 - 1, N div 2), (N div 2, N div 2 - 1)}
     \<and> card {p. \<exists>sq. map_of (board b) p = Some sq \<and> \<not> isEmpty sq} = 4"
proof -
  from Board_new_ok [OF assms] obtain b where
    b: "Board_new N = Inr b" "maxBoardSize b = N" "Board_ok b"
    and cells: "map_of (board b) = map_of (empty_squares N) ++ center_cells (N div 2)"
    by blast
  let ?c = "N div 2"
  let ?four = "{(?c - 1, ?c - 1), (?c, ?c), (?c - 1, ?c), (?c, ?c - 1)}"
  have keys: "map fst (board b) = all_positions N"
    using b by (simp add: Board_ok_def)
  have len: "length (board b) = nat N * nat N"
    using length_all_positions [of N] arg_cong [OF keys, of length] by simp
  have c1: "map_of (board b) (?c - 1, ?c - 1) = Some \<lparr>val = 1\<rparr>"
    and c2: "map_of (board b) (?c, ?c) = Some \<lparr>val = 1\<rparr>"
    and c3: "map_of (board b) (?c - 1, ?c) = Some \<lparr>val = 2\<rparr>"
    and c4: "map_of (board b) (?c, ?c - 1) = Some \<lparr>val = 2\<rparr>"
    by (simp_all add: cells center_cells_def map_add_def)
  have rest: "map_of (board b) p = Some \<lparr>val = 0\<rparr>" if "p \<in> set (all_positions N) - ?four" for p
    using that by (simp add: cells center_cells_def map_add_def map_of_empty_squares)
  have outside: "map_of (board b) p = None" if "p \<notin> set (all_positions N)" for p
    using that center_in_grid [OF assms]
    by (auto simp: cells center_cells_def map_add_def map_of_empty_squares)
  have occ: "{p. \<exists>sq. map_of (board b) p = Some sq \<and> \<not> isEmpty sq} = ?four"
  proof (rule set_eqI)
    fix p
    show "p \<in> {p. \<exists>sq. map_of (board b) p = Some sq \<and> \<not> isEmpty sq} \<longleftrightarrow> p \<in> ?four"
    proof (cases "p \<in> ?four")
      case True
      then show ?thesis using c1 c2 c3 c4 by (auto simp: isEmpty_def)
    next
      case False
      then show ?thesis
        using rest [of p] outside [of p] by (cases "p \<in> set (all_positions N)") (auto simp: isEmpty_def)
    qed
  qed
  have "card ?four = 4" by simp
  with occ have card: "card {p. \<exists>sq. map_of (board b) p = Some sq \<and> \<not> isEmpty sq} = 4"
    by simp
  from b keys len c1 c2 c3 c4 rest occ card show ?thesis by blast
qed

theorem C6_initial_position_witness:
  "(4::int) \<le> 5 \<and>
   (\<exists>b. Board_new 5 = Inr b \<and> maxBoardSize b = 5 \<and> length (board b) = 25
      \<and> map_of (board b) (1, 1) = Some \<lparr>val = 1\<rparr> \<and> map_of (board b) (2, 2) = Some \<lparr>val = 1\<rparr>
      \<and> map_of (board b) (1, 2) = Some \<lparr>val = 2\<rparr> \<and> map_of (board b) (2, 1) = Some \<lparr>val = 2\<rparr>
      \<and> card {p. \<exists>sq. map_of (board b) p = Some sq \<and> \<not> isEmpty sq} = 4)"
  using C6_initial_position [of 5] by auto

text \<open>
  C7. The constructor throws \<open>invalid_argument\<close> exactly when the requested size is
  below 4; in that case no board is returned; and a board that is returned has a square
  under every position of \<open>[0,size) \<times> [0,size)\<close>.
\<close>

theorem C7_size_check:
  "(Board_new sz = Inl invalid_argument \<longleftrightarrow> sz < 4)
   \<and> (sz < 4 \<longrightarrow> (\<forall>b. Board_new sz \<noteq> Inr b))
   \<and> (\<forall>b. Board_new sz = Inr b \<longrightarrow>
         (\<forall>row col. 0 \<le> row \<and> row < sz \<and> 0 \<le> col \<and> col < sz \<longrightarrow>
            (\<exists>sq. map_of (board b) (row, col) = Some sq)))"
proof (cases "sz < 4")
  case True
  then show ?thesis by (simp add: Board_new_def)
next
  case False
  then have "4 \<le> sz" by simp
  from Board_new_ok [OF this] obtain b where
    b: "Board_new sz = Inr b" "maxBoardSize b = sz" "Board_ok b" by blast
  have "\<exists>sq. map_of (board b) (row, col) = Some sq"
    if "0 \<le> row \<and> row < sz \<and> 0 \<le> col \<and> col < sz" for row col
    using that b Board_ok_lookup [of b "(row, col)"] by (simp add: in_bounds_def)
  with b False show ?thesis by auto
qed

theorem C7_size_check_witness:
  "(3::int) < 4 \<and> Board_new 3 = Inl invalid_argument \<and> \<not> (4::int) < 4
   \<and> (\<exists>b. Board_new 4 = Inr b \<and> (\<exists>sq. map_of (board b) (3, 0) = Some sq))"
proof -
  have "Board_new 3 = Inl invalid_argument"
    using C7_size_check [of 3] by simp
  moreover have "\<exists>b. Board_new 4 = Inr b \<and> (\<exists>sq. map_of (board b) (3, 0) = Some sq)"
    using C7_size_check [of 4] by (cases "Board_new 4") (auto simp: Board_new_def)
  ultimately show ?thesis by simp
qed

section \<open>The capture scan\<close>

lemma ray_0: "ray p d 0 = p"
  by (simp add: ray_def)

lemma advance_ray: "advance (ray p d k) d = ray p d (Suc k)"
  by (simp add: ray_def advance_def algebra_simps)

lemma ray_advance: "ray (advance p d) d k = ray p d (Suc k)"
  by (simp add: ray_def advance_def algebra_simps)

lemma owned_lookup:
  "owned b v p \<longleftrightarrow> in_bounds b p \<and> (\<exists>sq. map_of (board b) p = Some sq \<and> val sq = v)"
  by (auto simp: owned_def)

text \<open>One iteration of the loop on a square of the opponent.\<close>

lemma scan_loop_step:
  "owned b opp p \<Longrightarrow>
   scan_loop b pl opp d p acc = scan_loop b pl opp d (advance p d) (set_insert p acc)"
  by (subst scan_loop.simps) (auto simp: owned_lookup getValue_def)

lemma scan_loop_stop:
  assumes "Board_ok b" "\<not> owned b opp p" "pl \<noteq> opp"
  shows "scan_loop b pl opp d p acc =
     Some (Inr (if owned b pl p then (acc \<noteq> [], acc) else (False, acc)))"
proof (cases "in_bounds b p")
  case False
  then show ?thesis by (subst scan_loop.simps) (simp add: owned_lookup)
next
  case True
  with assms(1) obtain sq where sq: "map_of (board b) p = Some sq"
    using Board_ok_lookup [of b p] by blast
  with True assms(2,3) show ?thesis
    by (subst scan_loop.simps) (auto simp: owned_lookup getValue_def)
qed

lemma scan_loop_run:
  "\<forall>i<k. owned b opp (ray p d i) \<Longrightarrow>
   scan_loop b pl opp d p acc =
     scan_loop b pl opp d (ray p d k) (fold set_insert (map (ray p d) [0..<k]) acc)"
proof (induction k)
  case 0
  then show ?case by (simp add: ray_0)
next
  case (Suc k)
  then have "scan_loop b pl opp d p acc =
     scan_loop b pl opp d (ray p d k) (fold set_insert (map (ray p d) [0..<k]) acc)"
    by simp
  also have "\<dots> = scan_loop b pl opp d (advance (ray p d k) d)
      (set_insert (ray p d k) (fold set_insert (map (ray p d) [0..<k]) acc))"
    using Suc.prems by (intro scan_loop_step) simp
  finally show ?case by (simp add: advance_ray)
qed

lemma set_fold_insert: "set (fold set_insert xs acc) = set xs \<union> set acc"
  using set_insert_range [of xs acc] by (simp add: set_insert_range_def)

lemma sorted_fold_insert: "sorted_wrt (<) acc \<Longrightarrow> sorted_wrt (<) (fold set_insert xs acc)"
  using sorted_insert_range [of acc xs] by (simp add: set_insert_range_def)

lemma ray_leaves_board:
  assumes "d \<in> set directions"
  shows "\<exists>k. \<not> in_bounds b (ray p d k)"
proof
  let ?k = "nat (\<bar>fst p\<bar> + \<bar>snd p\<bar> + \<bar>maxBoardSize b\<bar>) + 1"
  from assms show "\<not> in_bounds b (ray p d ?k)"
    by (auto simp: directions_def in_bounds_def ray_def)
qed

lemma player_not_opponent: "opponent_of player \<noteq> player"
  by (simp add: opponent_of_def)

lemma owned_unique: "owned b v p \<Longrightarrow> owned b w p \<Longrightarrow> v = w"
  by (auto simp: owned_def)

lemma ray_inj: "d \<in> set directions \<Longrightarrow> inj (ray p d)"
  by (auto simp: directions_def ray_def inj_on_def)

lemma set_run_cells: "set (run_cells origin d k) = ray origin d ` {1..k}"
  by (auto simp: run_cells_def set_fold_insert)

lemma sorted_run_cells: "sorted_wrt (<) (run_cells origin d k)"
  by (simp add: run_cells_def sorted_fold_insert)

lemma length_run_cells:
  assumes "d \<in> set directions"
  shows "length (run_cells origin d k) = k"
proof -
  have "distinct (run_cells origin d k)"
    using sorted_run_cells [of origin d k] by (simp add: strict_sorted_iff)
  then have "length (run_cells origin d k) = card (ray origin d ` {1..k})"
    using distinct_card [of "run_cells origin d k"] by (simp add: set_run_cells)
  also have "\<dots> = card {1..k}"
    by (rule card_image) (rule inj_on_subset [OF ray_inj [OF assms]], simp)
  finally show ?thesis by simp
qed

lemma run_cells_empty_iff: "run_cells origin d k = [] \<longleftrightarrow> k = 0"
proof -
  have "run_cells origin d k = [] \<longleftrightarrow> set (run_cells origin d k) = {}" by simp
  also have "\<dots> \<longleftrightarrow> k = 0" unfolding set_run_cells by auto
  finally show ?thesis .
qed

lemma findFlippablePieces_char:
  assumes ok: "Board_ok b"
    and run: "\<forall>i \<in> {1..k}. owned b (opponent_of player) (ray origin d i)"
    and stop: "\<not> owned b (opponent_of player) (ray origin d (Suc k))"
  shows "findFlippablePieces b origin player d t =
     Some (Inr (if owned b player (ray origin d (Suc k)) \<and> 1 \<le> k
                then (True, run_cells origin d k) else (False, [])))"
proof -
  let ?q = "advance origin d"
  let ?opp = "opponent_of player"
  let ?acc = "fold set_insert (map (ray ?q d) [0..<k]) []"
  have "ray ?q d = (\<lambda>i. ray origin d (Suc i))"
    by (simp add: fun_eq_iff ray_advance)
  then have acc: "?acc = run_cells origin d k"
    by (simp add: run_cells_def map_Suc_upt [symmetric] comp_def del: upt_Suc)
  from run have "\<forall>i<k. owned b ?opp (ray ?q d i)"
    by (simp add: ray_advance)
  then have "scan_loop b player ?opp d ?q [] = scan_loop b player ?opp d (ray ?q d k) ?acc"
    by (rule scan_loop_run)
  also have "\<dots> = Some (Inr (if owned b player (ray ?q d k) then (?acc \<noteq> [], ?acc) else (False, ?acc)))"
    using ok stop player_not_opponent [of player]
    by (intro scan_loop_stop) (simp_all add: ray_advance)
  finally have "scan_loop b player ?opp d ?q [] =
      Some (Inr (if owned b player (ray origin d (Suc k)) then (k \<noteq> 0, run_cells origin d k)
                 else (False, run_cells origin d k)))"
    by (simp add: acc ray_advance run_cells_empty_iff)
  then show ?thesis
    by (auto simp: findFlippablePieces_def and_then_def opponent_of_def)
qed

lemma scan_stops:
  assumes "d \<in> set directions"
  shows "\<exists>k. (\<forall>i \<in> {1..k}. owned b v (ray origin d i)) \<and> \<not> owned b v (ray origin d (Suc k))"
proof -
  let ?P = "\<lambda>k. \<not> owned b v (ray origin d (Suc k))"
  from ray_leaves_board [OF assms, of b "advance origin d"]
  obtain k0 where "\<not> in_bounds b (ray origin d (Suc k0))"
    by (auto simp: ray_advance)
  then have ex: "?P k0" by (simp add: owned_def)
  let ?k = "LEAST k. ?P k"
  have stop: "?P ?k" using ex by (rule LeastI)
  have "owned b v (ray origin d i)" if "i \<in> {1..?k}" for i
  proof -
    from that obtain j where j: "i = Suc j" "j < ?k" by (cases i) auto
    from not_less_Least [OF j(2)] j(1) show ?thesis by simp
  qed
  with stop show ?thesis by blast
qed

lemma Board_ok_start4: "Board_ok start4"
  by code_simp

lemma Board_new_4: "Board_new 4 = Inr start4"
  by code_simp

text \<open>
  C1. On a board that holds a square for every position of the grid, for either player,
  any origin and each of the eight directions, \<open>findFlippablePieces\<close> returns, and
  its result is the pair of a set \<open>run\<close> and the flag \<open>run \<noteq> []\<close>. If \<open>k \<ge> 1\<close>
  squares of the opponent follow the origin and the square after them is the player's,
  \<open>run\<close> is exactly those \<open>k\<close> positions. If no such \<open>k\<close> exists \<open>run\<close> is empty; in
  particular when the adjacent position is off the board, empty, or the player's own,
  and when a run of opponent squares ends in an empty square or at the edge.
\<close>

theorem C1_capture_ray:
  assumes "Board_ok b" "player = 1 \<or> player = 2" "direction \<in> set directions"
  shows "\<exists>run. findFlippablePieces b origin player direction toFlip = Some (Inr (run \<noteq> [], run))
     \<and> sorted_wrt (<) run
     \<and> (\<forall>k. capture_run b player origin direction k \<longrightarrow>
           set run = ray origin direction ` {1..k} \<and> length run = k)
     \<and> ((\<forall>k. \<not> capture_run b player origin direction k) \<longrightarrow> run = [])
     \<and> (\<not> in_bounds b (ray origin direction 1) \<longrightarrow> run = [])
     \<and> (owned b 0 (ray origin direction 1) \<longrightarrow> run = [])
     \<and> (owned b player (ray origin direction 1) \<longrightarrow> run = [])
     \<and> (\<forall>k. (\<forall>i \<in> {1..k}. owned b (opponent_of player) (ray origin direction i))
             \<and> owned b 0 (ray origin direction (Suc k)) \<longrightarrow> run = [])
     \<and> (\<forall>k. (\<forall>i \<in> {1..k}. owned b (opponent_of player) (ray origin direction i))
             \<and> \<not> in_bounds b (ray origin direction (Suc k)) \<longrightarrow> run = [])"
proof -
  let ?opp = "opponent_of player"
  let ?ffp = "findFlippablePieces b origin player direction toFlip"
  note char = findFlippablePieces_char [OF assms(1), of _ player origin direction toFlip]
  have opp: "?opp \<noteq> player" "?opp \<noteq> 0" "player \<noteq> 0"
    using assms(2) by (auto simp: opponent_of_def)
  from scan_stops [OF assms(3), of b ?opp origin] obtain k0 where
    k0: "\<forall>i \<in> {1..k0}. owned b ?opp (ray origin direction i)"
      "\<not> owned b ?opp (ray origin direction (Suc k0))"
    by blast
  define run where "run = (if owned b player (ray origin direction (Suc k0)) \<and> 1 \<le> k0
     then run_cells origin direction k0 else [])"
  have res: "?ffp = Some (Inr (run \<noteq> [], run))"
    using char [OF k0] by (simp add: run_def run_cells_empty_iff)
  have sorted: "sorted_wrt (<) run"
    by (simp add: run_def sorted_run_cells)
  have capt: "set run = ray origin direction ` {1..k} \<and> length run = k"
    if "capture_run b player origin direction k" for k
  proof -
    from that have k: "1 \<le> k" "\<forall>i \<in> {1..k}. owned b ?opp (ray origin direction i)"
      "owned b player (ray origin direction (Suc k))"
      by (simp_all add: capture_run_def)
    from k(3) opp(1) have "\<not> owned b ?opp (ray origin direction (Suc k))"
      using owned_unique by blast
    from char [OF k(2) this] k(1,3) res have "run = run_cells origin direction k"
      by simp
    then show ?thesis
      by (simp add: set_run_cells length_run_cells [OF assms(3)])
  qed
  have none: "run = []" if "\<forall>k. \<not> capture_run b player origin direction k"
  proof -
    from that k0(1) have "\<not> (owned b player (ray origin direction (Suc k0)) \<and> 1 \<le> k0)"
      by (auto simp: capture_run_def)
    then show ?thesis by (auto simp: run_def)
  qed
  have halt: "run = []"
    if "\<forall>i \<in> {1..k}. owned b ?opp (ray origin direction i)"
      and "\<not> owned b ?opp (ray origin direction (Suc k))"
      and "\<not> owned b player (ray origin direction (Suc k))" for k
    using char [OF that(1,2)] that(3) res by simp
  have empty_cell: "run = []"
    if "\<forall>i \<in> {1..k}. owned b ?opp (ray origin direction i)"
      and "owned b 0 (ray origin direction (Suc k))" for k
    using halt [OF that(1)] that(2) opp owned_unique by blast
  have off_board: "run = []"
    if "\<forall>i \<in> {1..k}. owned b ?opp (ray origin direction i)"
      and "\<not> in_bounds b (ray origin direction (Suc k))" for k
    using halt [OF that(1)] that(2) by (simp add: owned_def)
  have adj_off: "run = []" if "\<not> in_bounds b (ray origin direction 1)"
    using off_board [of 0] that by simp
  have adj_empty: "run = []" if "owned b 0 (ray origin direction 1)"
    using empty_cell [of 0] that by simp
  have adj_anchor: "run = []" if "owned b player (ray origin direction 1)"
  proof -
    from that opp(1) have "\<not> owned b ?opp (ray origin direction (Suc 0))"
      using owned_unique by fastforce
    from char [of 0, OF _ this] res show ?thesis by simp
  qed
  from res sorted capt none adj_off adj_empty adj_anchor empty_cell off_board
  show ?thesis by blast
qed

theorem C1_capture_ray_witness:
  "Board_ok start4 \<and> (1, 0) \<in> set directions \<and> capture_run start4 1 (0, 2) (1, 0) 1
   \<and> findFlippablePieces start4 (0, 2) 1 (1, 0) [] = Some (Inr (True, [(1, 2)]))"
proof -
  have dir: "(1, 0) \<in> set directions"
    by (simp add: directions_def)
  have cap: "capture_run start4 1 (0, 2) (1, 0) 1"
    by (simp add: capture_run_def owned_def opponent_of_def ray_def in_bounds_def start4_def)
  from C1_capture_ray [OF Board_ok_start4 _ dir, of 1 "(0, 2)" "[]"] obtain run where
    run: "findFlippablePieces start4 (0, 2) 1 (1, 0) [] = Some (Inr (run \<noteq> [], run))"
      "\<forall>k. capture_run start4 1 (0, 2) (1, 0) k \<longrightarrow>
         set run = ray (0, 2) (1, 0) ` {1..k} \<and> length run = k"
    by auto
  from run(2) cap have "set run = {(1, 2)}" "length run = 1"
    by (auto simp: ray_def)
  then have "run = [(1, 2)]"
    by (cases run) auto
  with run(1) Board_ok_start4 dir cap show ?thesis by simp
qed

section \<open>The move generator\<close>

lemma findFlippablePieces_returns:
  assumes "Board_ok b" "d \<in> set directions"
  shows "\<exists>run. findFlippablePieces b origin player d t = Some (Inr (run \<noteq> [], run))
     \<and> sorted_wrt (<) run \<and> (\<forall>q \<in> set run. owned b (opponent_of player) q)"
proof -
  from scan_stops [OF assms(2), of b "opponent_of player" origin] obtain k where
    k: "\<forall>i \<in> {1..k}. owned b (opponent_of player) (ray origin d i)"
      "\<not> owned b (opponent_of player) (ray origin d (Suc k))"
    by blast
  show ?thesis
  proof (cases "owned b player (ray origin d (Suc k)) \<and> 1 \<le> k")
    case True
    with findFlippablePieces_char [OF assms(1) k, of t] k(1) show ?thesis
      by (auto simp: run_cells_empty_iff sorted_run_cells set_run_cells)
  next
    case False
    with findFlippablePieces_char [OF assms(1) k, of t] show ?thesis
      by auto
  qed
qed

lemma scan_directions_char:
  assumes "Board_ok b"
  shows "set ds \<subseteq> set directions \<Longrightarrow> sorted_wrt (<) tot \<Longrightarrow>
    \<exists>tot'. scan_directions b p player ds tot = Some (Inr tot') \<and> sorted_wrt (<) tot'
      \<and> set tot' = set tot \<union> (\<Union>d \<in> set ds. scan_result b p player d)"
proof (induction ds arbitrary: tot)
  case Nil
  then show ?case by simp
next
  case (Cons d ds)
  from Cons.prems have d: "d \<in> set directions" and ds: "set ds \<subseteq> set directions"
    by auto
  from findFlippablePieces_returns [OF assms d, of p player "[]"] obtain run where
    run: "findFlippablePieces b p player d [] = Some (Inr (run \<noteq> [], run))" "sorted_wrt (<) run"
    by blast
  let ?t = "if run \<noteq> [] then set_insert_range run tot else tot"
  have res: "scan_result b p player d = set run"
    by (simp add: scan_result_def run(1))
  have st: "sorted_wrt (<) ?t"
    using Cons.prems(2) by (simp add: sorted_insert_range)
  have set_t: "set ?t = set tot \<union> set run"
    by (auto simp: set_insert_range)
  from Cons.IH [OF ds st] obtain tot' where
    t': "scan_directions b p player ds ?t = Some (Inr tot')" "sorted_wrt (<) tot'"
      "set tot' = set ?t \<union> (\<Union>d \<in> set ds. scan_result b p player d)"
    by blast
  have "scan_directions b p player (d # ds) tot = Some (Inr tot')"
    using t'(1) by (simp add: run(1) and_then_def)
  moreover have "set tot' = set tot \<union> (\<Union>d \<in> set (d # ds). scan_result b p player d)"
    by (auto simp: t'(3) set_t res)
  ultimately show ?case using t'(2) by blast
qed

lemma scan_result_owned:
  assumes "Board_ok b" "d \<in> set directions" "q \<in> scan_result b p player d"
  shows "owned b (opponent_of player) q"
  using findFlippablePieces_returns [OF assms(1,2), of p player "[]"] assms(3)
  by (auto simp: scan_result_def)

lemma scan_all_directions:
  assumes "Board_ok b"
  shows "\<exists>tot. scan_directions b p player directions [] = Some (Inr tot)
     \<and> sorted_wrt (<) tot \<and> set tot = scan_union b p player"
  using scan_directions_char [OF assms, of directions "[]" p player]
  by (simp add: scan_union_def)

lemma captures_char:
  assumes "Board_ok b"
  shows "scan_directions b p player directions [] = Some (Inr (captures b p player))"
    and "sorted_wrt (<) (captures b p player)"
    and "set (captures b p player) = scan_union b p player"
proof -
  from scan_all_directions [OF assms, of p player] obtain tot where
    tot: "scan_directions b p player directions [] = Some (Inr tot)" "sorted_wrt (<) tot"
      "set tot = scan_union b p player"
    by blast
  then have eq: "captures b p player = tot"
    by (simp add: captures_def)
  show "scan_directions b p player directions [] = Some (Inr (captures b p player))"
    and "sorted_wrt (<) (captures b p player)"
    and "set (captures b p player) = scan_union b p player"
    unfolding eq by (fact tot)+
qed

lemma captures_owned:
  assumes "Board_ok b" "q \<in> set (captures b p player)"
  shows "owned b (opponent_of player) q"
proof -
  from assms have "q \<in> scan_union b p player"
    by (simp add: captures_char(3))
  then obtain d where "d \<in> set directions" "q \<in> scan_result b p player d"
    unfolding scan_union_def by blast
  then show ?thesis by (rule scan_result_owned [OF assms(1)])
qed

lemma valid_moves_loop_char:
  assumes "Board_ok b"
  shows "distinct (map fst entries) \<Longrightarrow>
    \<exists>vm'. valid_moves_loop b player entries vm = Some (Inr vm')
      \<and> (sorted_wrt (<) (map fst vm) \<longrightarrow> sorted_wrt (<) (map fst vm'))
      \<and> (\<forall>p. map_of vm' p =
            (case map_of entries p of
               Some sq \<Rightarrow> if isEmpty sq \<and> captures b p player \<noteq> [] then Some (captures b p player)
                          else map_of vm p
             | None \<Rightarrow> map_of vm p))"
proof (induction entries arbitrary: vm)
  case Nil
  then show ?case by simp
next
  case (Cons e entries)
  obtain p sq where e: "e = (p, sq)" by (cases e)
  from Cons.prems e have fresh: "map_of entries p = None" and dist: "distinct (map fst entries)"
    by (simp_all add: map_of_eq_None_iff)
  let ?caps = "captures b p player"
  define vm1 where "vm1 = (if isEmpty sq \<and> ?caps \<noteq> [] then map_assign p ?caps vm else vm)"
  from Cons.IH [OF dist, of vm1] obtain vm' where
    vm': "valid_moves_loop b player entries vm1 = Some (Inr vm')"
      "sorted_wrt (<) (map fst vm1) \<longrightarrow> sorted_wrt (<) (map fst vm')"
    and look: "\<And>q. map_of vm' q =
         (case map_of entries q of
            Some sq' \<Rightarrow> if isEmpty sq' \<and> captures b q player \<noteq> [] then Some (captures b q player)
                        else map_of vm1 q
          | None \<Rightarrow> map_of vm1 q)"
    by blast
  have "valid_moves_loop b player ((p, sq) # entries) vm = valid_moves_loop b player entries vm1"
    by (simp add: vm1_def and_then_def captures_char(1) [OF assms])
  with vm'(1) have run: "valid_moves_loop b player (e # entries) vm = Some (Inr vm')"
    by (simp add: e)
  have sorted: "sorted_wrt (<) (map fst vm) \<longrightarrow> sorted_wrt (<) (map fst vm')"
    using vm'(2) by (simp add: vm1_def sorted_map_assign)
  have m1: "map_of vm1 q =
      (if q = p \<and> isEmpty sq \<and> ?caps \<noteq> [] then Some ?caps else map_of vm q)" for q
    by (simp add: vm1_def map_of_map_assign)
  have "map_of vm' q =
      (case map_of (e # entries) q of
         Some sq' \<Rightarrow> if isEmpty sq' \<and> captures b q player \<noteq> [] then Some (captures b q player)
                     else map_of vm q
       | None \<Rightarrow> map_of vm q)" for q
  proof (cases "q = p")
    case True
    with look [of p] fresh m1 [of p] show ?thesis by (simp add: e)
  next
    case False
    with look [of q] m1 [of q] show ?thesis by (cases "map_of entries q") (simp_all add: e)
  qed
  with run sorted show ?case by blast
qed

lemma distinct_all_positions: "distinct (all_positions n)"
  using sorted_all_positions [of n] by (simp add: strict_sorted_iff)

lemma getValidMoves_char:
  assumes "Board_ok b"
  shows "\<exists>vm. getValidMoves b player = Some (Inr vm) \<and> sorted_wrt (<) (map fst vm)
     \<and> (\<forall>p. map_of vm p =
           (if owned b 0 p \<and> captures b p player \<noteq> [] then Some (captures b p player) else None))"
proof -
  from assms have "distinct (map fst (board b))"
    by (simp add: Board_ok_def distinct_all_positions)
  from valid_moves_loop_char [OF assms this, of player "[]"] obtain vm where
    vm: "valid_moves_loop b player (board b) [] = Some (Inr vm)"
      "sorted_wrt (<) (map fst ([] :: (pos \<times> pos list) list)) \<longrightarrow> sorted_wrt (<) (map fst vm)"
    and look: "\<And>p. map_of vm p =
         (case map_of (board b) p of
            Some sq \<Rightarrow> if isEmpty sq \<and> captures b p player \<noteq> [] then Some (captures b p player)
                       else map_of [] p
          | None \<Rightarrow> map_of [] p)"
    by blast
  have "map_of vm p =
      (if owned b 0 p \<and> captures b p player \<noteq> [] then Some (captures b p player) else None)" for p
  proof (cases "map_of (board b) p")
    case None
    with look [of p] show ?thesis by (simp add: owned_def)
  next
    case (Some sq)
    with Board_ok_lookup [OF assms, of p] have "in_bounds b p" by blast
    with Some look [of p] show ?thesis by (simp add: owned_def isEmpty_def)
  qed
  with vm show ?thesis by (simp add: getValidMoves_def)
qed

lemma map_entry_iff:
  "sorted_wrt (<) (map fst (m::('k::linorder \<times> 'v) list)) \<Longrightarrow> (k, v) \<in> set m \<longleftrightarrow> map_of m k = Some v"
  by (simp add: strict_sorted_iff)

lemma getValidMoves_start4:
  "getValidMoves start4 1 =
     Some (Inr [((0, 2), [(1, 2)]), ((1, 3), [(1, 2)]), ((2, 0), [(2, 1)]), ((3, 1), [(2, 1)])])"
  by code_simp

lemma getValidMoves_entries:
  assumes "Board_ok b" "getValidMoves b player = Some (Inr vm)"
  shows "sorted_wrt (<) (map fst vm)"
    and "(p, caps) \<in> set vm \<longleftrightarrow> owned b 0 p \<and> captures b p player \<noteq> [] \<and> caps = captures b p player"
proof -
  from getValidMoves_char [OF assms(1), of player] assms(2)
  have sorted: "sorted_wrt (<) (map fst vm)"
    and look: "\<And>q. map_of vm q =
       (if owned b 0 q \<and> captures b q player \<noteq> [] then Some (captures b q player) else None)"
    by auto
  show "sorted_wrt (<) (map fst vm)" by (fact sorted)
  show "(p, caps) \<in> set vm \<longleftrightarrow> owned b 0 p \<and> captures b p player \<noteq> [] \<and> caps = captures b p player"
    using look [of p] by (auto simp: map_entry_iff [OF sorted])
qed

lemma flip_each_not_occupied: "fst (flip_each qs b) \<noteq> Some OccupiedCellError"
proof (induction qs arbitrary: b)
  case Nil
  then show ?case by simp
next
  case (Cons q qs)
  show ?case
  proof (cases "at_apply q flipPiece b")
    case (Inl e)
    then have "e \<noteq> OccupiedCellError"
      by (auto simp: at_apply_def flipPiece_def split: option.splits if_splits)
    with Inl show ?thesis by simp
  next
    case (Inr b')
    with Cons.IH [of b'] show ?thesis by simp
  qed
qed

text \<open>
  C2. On a board that holds a square for every position of the grid, \<open>getValidMoves\<close>
  returns a map whose keys are exactly the empty positions for which the union of the
  eight scan results is not empty, and the set stored under a key is exactly that
  union. On the board the constructor builds for size 4, the moves of player X (1) are
  \<open>(0,2) \<mapsto> {(1,2)}\<close>, \<open>(1,3) \<mapsto> {(1,2)}\<close>, \<open>(2,0) \<mapsto> {(2,1)}\<close> and \<open>(3,1) \<mapsto> {(2,1)}\<close>.
\<close>

theorem C2_move_generator:
  assumes "Board_ok b"
  shows "(\<exists>vm. getValidMoves b player = Some (Inr vm) \<and> sorted_wrt (<) (map fst vm)
       \<and> (\<forall>p. p \<in> fst ` set vm \<longleftrightarrow> owned b 0 p \<and> scan_union b p player \<noteq> {})
       \<and> (\<forall>p caps. (p, caps) \<in> set vm \<longrightarrow>
             sorted_wrt (<) caps \<and> set caps = scan_union b p player))
     \<and> (\<exists>b4. Board_new 4 = Inr b4 \<and>
           getValidMoves b4 1 =
             Some (Inr [((0, 2), [(1, 2)]), ((1, 3), [(1, 2)]), ((2, 0), [(2, 1)]), ((3, 1), [(2, 1)])]))"
proof -
  from getValidMoves_char [OF assms, of player] obtain vm where
    vm: "getValidMoves b player = Some (Inr vm)" by blast
  note entries = getValidMoves_entries [OF assms vm]
  have nonempty: "captures b p player \<noteq> [] \<longleftrightarrow> scan_union b p player \<noteq> {}" for p
    using captures_char(3) [OF assms, of p player] by auto
  have keys: "p \<in> fst ` set vm \<longleftrightarrow> owned b 0 p \<and> scan_union b p player \<noteq> {}" for p
  proof
    assume "p \<in> fst ` set vm"
    then obtain caps where "(p, caps) \<in> set vm" by auto
    then show "owned b 0 p \<and> scan_union b p player \<noteq> {}"
      by (simp add: entries(2) nonempty)
  next
    assume "owned b 0 p \<and> scan_union b p player \<noteq> {}"
    then have "(p, captures b p player) \<in> set vm"
      by (simp add: entries(2) nonempty)
    then show "p \<in> fst ` set vm" by force
  qed
  have vals: "sorted_wrt (<) caps \<and> set caps = scan_union b p player" if "(p, caps) \<in> set vm" for p caps
    using that by (simp add: entries(2) captures_char(2,3) [OF assms])
  from vm entries(1) keys vals Board_new_4 getValidMoves_start4 show ?thesis by blast
qed

theorem C2_move_generator_witness:
  "Board_ok start4 \<and> getValidMoves start4 1 =
      Some (Inr [((0, 2), [(1, 2)]), ((1, 3), [(1, 2)]), ((2, 0), [(2, 1)]), ((3, 1), [(2, 1)])])
   \<and> owned start4 0 (0, 2) \<and> scan_union start4 (0, 2) 1 = {(1, 2)}
   \<and> \<not> owned start4 0 (1, 1) \<and> scan_union start4 (0, 0) 1 = {}"
proof -
  let ?vm = "[((0, 2), [(1, 2)]), ((1, 3), [(1, 2)]), ((2, 0), [(2, 1)]), ((3, 1), [(2, 1)])]"
  from C2_move_generator [OF Board_ok_start4, of 1] obtain vm where
    vm: "getValidMoves start4 1 = Some (Inr vm)"
    and keys: "\<forall>p. p \<in> fst ` set vm \<longleftrightarrow> owned start4 0 p \<and> scan_union start4 p 1 \<noteq> {}"
    and vals: "\<forall>p caps. (p, caps) \<in> set vm \<longrightarrow>
       sorted_wrt (<) caps \<and> set caps = scan_union start4 p 1"
    by blast
  from vm have eq: "vm = ?vm"
    by (simp add: getValidMoves_start4)
  have e: "owned start4 0 (0, 0)" "\<not> owned start4 0 (1, 1)"
    by (simp_all add: owned_def in_bounds_def start4_def)
  from spec [OF keys, of "(0, 2)"] have k1: "owned start4 0 (0, 2)"
    by (simp add: eq)
  from spec [OF keys, of "(0, 0)"] e(1) have k2: "scan_union start4 (0, 0) 1 = {}"
    by (simp add: eq)
  from vals have "((0, 2), [(1, 2)]) \<in> set vm \<longrightarrow> set [(1, 2)] = scan_union start4 (0, 2) 1"
    by blast
  then have v1: "scan_union start4 (0, 2) 1 = {(1, 2)}"
    by (simp add: eq)
  from k1 k2 v1 e(2) show ?thesis
    by (simp add: Board_ok_start4 getValidMoves_start4)
qed

text \<open>
  C8. If the position handed to \<open>placePiece\<close> is a key of the map \<open>getValidMoves\<close>
  returned for the same board, its square is empty, so \<open>setPiece\<close> does not throw and
  \<open>placePiece\<close> cannot end in the exception for an occupied square, whatever set of
  positions to flip it is given.
\<close>

theorem C8_occupied_unreachable:
  assumes "Board_ok b" "getValidMoves b player = Some (Inr validMoves)"
    "position \<in> fst ` set validMoves"
  shows "owned b 0 position
     \<and> (\<exists>b'. at_apply position (setPiece player) b = Inr b')
     \<and> fst (placePiece position player toFlip b) \<noteq> Some OccupiedCellError"
proof -
  from assms(3) obtain caps where "(position, caps) \<in> set validMoves" by auto
  then have empty: "owned b 0 position"
    by (simp add: getValidMoves_entries(2) [OF assms(1,2)])
  then obtain sq where sq: "map_of (board b) position = Some sq" "val sq = 0"
    by (auto simp: owned_lookup)
  note set = at_apply_setPiece [OF sq, of player]
  have "fst (placePiece position player toFlip b) \<noteq> Some OccupiedCellError"
    by (simp add: placePiece_def set flip_each_not_occupied)
  with empty set show ?thesis by blast
qed

theorem C8_occupied_unreachable_witness:
  "Board_ok start4 \<and> (\<exists>validMoves. getValidMoves start4 1 = Some (Inr validMoves)
       \<and> (0, 2) \<in> fst ` set validMoves)
   \<and> owned start4 0 (0, 2) \<and> fst (placePiece (0, 2) 1 [(1, 2)] start4) \<noteq> Some OccupiedCellError"
  using C8_occupied_unreachable [OF Board_ok_start4 getValidMoves_start4, of "(0, 2)" "[(1, 2)]"]
  by (simp add: Board_ok_start4 getValidMoves_start4)

section \<open>Placing a piece\<close>

lemma at_apply_Inr:
  "at_apply p f b = Inr b' \<longleftrightarrow>
     (\<exists>sq sq'. map_of (board b) p = Some sq \<and> f sq = Inr sq'
        \<and> b' = b\<lparr>board := map_store p sq' (board b)\<rparr>)"
  by (auto simp: at_apply_def split: option.splits sum.splits)

lemma at_apply_Inl:
  "at_apply p f b = Inl e \<longleftrightarrow>
     (map_of (board b) p = None \<and> e = out_of_range)
     \<or> (\<exists>sq. map_of (board b) p = Some sq \<and> f sq = Inl e)"
  by (auto simp: at_apply_def split: option.splits sum.splits)

lemma flipPiece_Inr: "flipPiece sq = Inr sq' \<longleftrightarrow> val sq \<noteq> 0 \<and> sq' = sq\<lparr>val := opponent_of (val sq)\<rparr>"
  by (auto simp: flipPiece_def opponent_of_def)

lemma flipPiece_Inl: "flipPiece sq = Inl e \<longleftrightarrow> val sq = 0 \<and> e = EmptyCellFlipError"
  by (auto simp: flipPiece_def)

text \<open>A single successful flip.\<close>

lemma at_apply_flip:
  assumes "at_apply q flipPiece b = Inr b1"
  shows "maxBoardSize b1 = maxBoardSize b" "map fst (board b1) = map fst (board b)"
    and "\<exists>sq. map_of (board b) q = Some sq \<and> val sq \<noteq> 0
           \<and> map_of (board b1) = (map_of (board b))(q \<mapsto> sq\<lparr>val := opponent_of (val sq)\<rparr>)"
proof -
  from assms obtain sq where sq: "map_of (board b) q = Some sq" "val sq \<noteq> 0"
    and b1: "b1 = b\<lparr>board := map_store q (sq\<lparr>val := opponent_of (val sq)\<rparr>) (board b)\<rparr>"
    by (auto simp: at_apply_Inr flipPiece_Inr)
  show "maxBoardSize b1 = maxBoardSize b" "map fst (board b1) = map fst (board b)"
    by (simp_all add: b1 keys_map_store)
  show "\<exists>sq. map_of (board b) q = Some sq \<and> val sq \<noteq> 0
           \<and> map_of (board b1) = (map_of (board b))(q \<mapsto> sq\<lparr>val := opponent_of (val sq)\<rparr>)"
    using sq by (simp add: b1 map_of_store_present [OF sq(1)])
qed

text \<open>What a completed sequence of flips has done.\<close>

lemma flip_each_done:
  "distinct qs \<Longrightarrow> flip_each qs b = (None, b') \<Longrightarrow>
   maxBoardSize b' = maxBoardSize b \<and> map fst (board b') = map fst (board b)
   \<and> (\<forall>q \<in> set qs. \<exists>sq. map_of (board b) q = Some sq \<and> val sq \<noteq> 0
          \<and> map_of (board b') q = Some (sq\<lparr>val := opponent_of (val sq)\<rparr>))
   \<and> (\<forall>p. p \<notin> set qs \<longrightarrow> map_of (board b') p = map_of (board b) p)"
proof (induction qs arbitrary: b)
  case Nil
  then show ?case by simp
next
  case (Cons q qs)
  from Cons.prems(2) obtain b1 where b1: "at_apply q flipPiece b = Inr b1"
    and rest: "flip_each qs b1 = (None, b')"
    by (cases "at_apply q flipPiece b") auto
  from at_apply_flip [OF b1] obtain sq where
    s: "maxBoardSize b1 = maxBoardSize b" "map fst (board b1) = map fst (board b)"
      "map_of (board b) q = Some sq" "val sq \<noteq> 0"
      "map_of (board b1) = (map_of (board b))(q \<mapsto> sq\<lparr>val := opponent_of (val sq)\<rparr>)"
    by blast
  from Cons.prems(1) have q: "q \<notin> set qs" and dist: "distinct qs" by simp_all
  from Cons.IH [OF dist rest] have
    ih: "maxBoardSize b' = maxBoardSize b1" "map fst (board b') = map fst (board b1)"
    and ih_flip: "\<And>x. x \<in> set qs \<Longrightarrow> \<exists>sq. map_of (board b1) x = Some sq \<and> val sq \<noteq> 0
          \<and> map_of (board b') x = Some (sq\<lparr>val := opponent_of (val sq)\<rparr>)"
    and ih_keep: "\<And>p. p \<notin> set qs \<Longrightarrow> map_of (board b') p = map_of (board b1) p"
    by blast+
  have flipped: "\<exists>sq. map_of (board b) x = Some sq \<and> val sq \<noteq> 0
          \<and> map_of (board b') x = Some (sq\<lparr>val := opponent_of (val sq)\<rparr>)" if "x \<in> set (q # qs)" for x
  proof (cases "x = q")
    case True
    with ih_keep [OF q] s(3,4,5) show ?thesis by simp
  next
    case False
    with that have "x \<in> set qs" by simp
    from ih_flip [OF this] False s(5) show ?thesis by simp
  qed
  have kept: "map_of (board b') p = map_of (board b) p" if "p \<notin> set (q # qs)" for p
  proof -
    from that have "p \<notin> set qs" "p \<noteq> q" by auto
    with ih_keep [of p] s(5) show ?thesis by simp
  qed
  from s(1,2) ih flipped kept show ?case by simp
qed

text \<open>A sequence of flips over occupied squares completes.\<close>

lemma flip_each_completes:
  "distinct qs \<Longrightarrow> \<forall>q \<in> set qs. \<exists>sq. map_of (board b) q = Some sq \<and> val sq \<noteq> 0 \<Longrightarrow>
   \<exists>b'. flip_each qs b = (None, b')"
proof (induction qs arbitrary: b)
  case Nil
  then show ?case by simp
next
  case (Cons q qs)
  from Cons.prems(2) obtain sq where sq: "map_of (board b) q = Some sq" "val sq \<noteq> 0"
    by auto
  then obtain b1 where b1: "at_apply q flipPiece b = Inr b1"
    by (simp add: at_apply_Inr flipPiece_Inr)
  from at_apply_flip(3) [OF b1] sq
  have m: "map_of (board b1) = (map_of (board b))(q \<mapsto> sq\<lparr>val := opponent_of (val sq)\<rparr>)"
    by simp
  from Cons.prems have "q \<notin> set qs" "distinct qs"
    and "\<forall>x \<in> set qs. \<exists>sq. map_of (board b) x = Some sq \<and> val sq \<noteq> 0"
    by simp_all
  then have "\<forall>x \<in> set qs. \<exists>sq. map_of (board b1) x = Some sq \<and> val sq \<noteq> 0"
    by (auto simp: m)
  from Cons.IH [OF \<open>distinct qs\<close> this] b1 show ?case by simp
qed

text \<open>A sequence of flips that throws has completed a prefix and thrown at the next
  position.\<close>

lemma flip_each_throws:
  "flip_each qs b = (Some e, b') \<Longrightarrow>
   \<exists>pre q post. qs = pre @ q # post \<and> flip_each pre b = (None, b') \<and> at_apply q flipPiece b' = Inl e"
proof (induction qs arbitrary: b)
  case Nil
  then show ?case by simp
next
  case (Cons x xs)
  show ?case
  proof (cases "at_apply x flipPiece b")
    case (Inl e')
    with Cons.prems have "e' = e" "b' = b" by simp_all
    with Inl have "x # xs = [] @ x # xs \<and> flip_each [] b = (None, b') \<and> at_apply x flipPiece b' = Inl e"
      by simp
    then show ?thesis by blast
  next
    case (Inr b1)
    with Cons.prems have "flip_each xs b1 = (Some e, b')" by simp
    from Cons.IH [OF this] obtain pre q post where
      p: "xs = pre @ q # post" "flip_each pre b1 = (None, b')" "at_apply q flipPiece b' = Inl e"
      by blast
    from p(1,2) Inr have "x # xs = (x # pre) @ q # post \<and> flip_each (x # pre) b = (None, b')"
      by simp
    with p(3) show ?thesis by blast
  qed
qed

lemma opponent_of_values: "opponent_of v \<noteq> 0" "opponent_of (opponent_of 1) = 1" "opponent_of (opponent_of 2) = 2"
  by (simp_all add: opponent_of_def)

text \<open>Placing on an empty square: the state between \<open>setPiece\<close> and the flips.\<close>

lemma placePiece_set:
  assumes "map_of (board b) position = Some sq0" "val sq0 = 0"
  shows "\<exists>b1. placePiece position player toFlip b = flip_each toFlip b1
     \<and> maxBoardSize b1 = maxBoardSize b \<and> map fst (board b1) = map fst (board b)
     \<and> map_of (board b1) = (map_of (board b))(position \<mapsto> sq0\<lparr>val := player\<rparr>)"
proof -
  let ?b1 = "b\<lparr>board := map_store position (sq0\<lparr>val := player\<rparr>) (board b)\<rparr>"
  have "placePiece position player toFlip b = flip_each toFlip ?b1"
    by (simp add: placePiece_def at_apply_setPiece [OF assms])
  moreover have "map_of (board ?b1) = (map_of (board b))(position \<mapsto> sq0\<lparr>val := player\<rparr>)"
    by (simp add: map_of_store_present [OF assms(1)])
  moreover have "maxBoardSize ?b1 = maxBoardSize b" "map fst (board ?b1) = map fst (board b)"
    by (simp_all add: keys_map_store)
  ultimately show ?thesis by blast
qed

text \<open>
  C3. For a board that holds a square for every position of the grid, a player (1 or 2)
  and an entry \<open>position \<mapsto> toFlip\<close> of the map \<open>getValidMoves\<close> returns for them,
  \<open>placePiece\<close> returns without an exception; afterwards the square at \<open>position\<close>,
  empty before, holds the player; every position of \<open>toFlip\<close>, held by the opponent
  before, holds the player; and every other square is as it was. The keys of the board
  and its size do not change.
\<close>

theorem C3_place_legal_move:
  assumes "Board_ok b" "player = 1 \<or> player = 2"
    "getValidMoves b player = Some (Inr validMoves)" "(position, toFlip) \<in> set validMoves"
  shows "\<exists>b'. placePiece position player toFlip b = (None, b')
     \<and> Board_ok b' \<and> maxBoardSize b' = maxBoardSize b
     \<and> owned b 0 position \<and> owned b' player position
     \<and> (\<forall>q \<in> set toFlip. owned b (opponent_of player) q \<and> owned b' player q)
     \<and> (\<forall>q. q \<noteq> position \<and> q \<notin> set toFlip \<longrightarrow> map_of (board b') q = map_of (board b) q)"
proof -
  from assms(4) have entry: "owned b 0 position" "toFlip = captures b position player"
    by (simp_all add: getValidMoves_entries(2) [OF assms(1,3)])
  have opp: "owned b (opponent_of player) q" if "q \<in> set toFlip" for q
    using that captures_owned [OF assms(1)] entry(2) by simp
  have dist: "distinct toFlip"
    using captures_char(2) [OF assms(1), of position player] entry(2) by (simp add: strict_sorted_iff)
  have notin: "position \<notin> set toFlip"
    using opp [of position] entry(1) owned_unique opponent_of_values(1) by metis
  from entry(1) obtain sq0 where sq0: "map_of (board b) position = Some sq0" "val sq0 = 0"
    by (auto simp: owned_lookup)
  from placePiece_set [OF sq0, of player toFlip] obtain b1 where
    b1: "placePiece position player toFlip b = flip_each toFlip b1"
      "maxBoardSize b1 = maxBoardSize b" "map fst (board b1) = map fst (board b)"
      "map_of (board b1) = (map_of (board b))(position \<mapsto> sq0\<lparr>val := player\<rparr>)"
    by blast
  have occupied: "\<forall>q \<in> set toFlip. \<exists>sq. map_of (board b1) q = Some sq \<and> val sq \<noteq> 0"
  proof
    fix q assume q: "q \<in> set toFlip"
    with notin have "q \<noteq> position" by auto
    with opp [OF q] opponent_of_values(1) [of player] show "\<exists>sq. map_of (board b1) q = Some sq \<and> val sq \<noteq> 0"
      by (auto simp: owned_lookup b1(4))
  qed
  from flip_each_completes [OF dist occupied] obtain b' where
    b': "flip_each toFlip b1 = (None, b')" by blast
  from flip_each_done [OF dist b'] have
    d: "maxBoardSize b' = maxBoardSize b1" "map fst (board b') = map fst (board b1)"
    and flip: "\<And>q. q \<in> set toFlip \<Longrightarrow> \<exists>sq. map_of (board b1) q = Some sq \<and> val sq \<noteq> 0
          \<and> map_of (board b') q = Some (sq\<lparr>val := opponent_of (val sq)\<rparr>)"
    and keep: "\<And>p. p \<notin> set toFlip \<Longrightarrow> map_of (board b') p = map_of (board b1) p"
    by blast+
  have size: "maxBoardSize b' = maxBoardSize b" and keys: "map fst (board b') = map fst (board b)"
    using d b1(2,3) by simp_all
  have inb: "in_bounds b' p \<longleftrightarrow> in_bounds b p" for p
    by (simp add: in_bounds_def size)
  have ok: "Board_ok b'"
    using assms(1) by (simp add: Board_ok_def size keys)
  have placed: "owned b' player position"
    using keep [OF notin] entry(1) by (simp add: owned_def inb b1(4))
  have flipped: "owned b (opponent_of player) q \<and> owned b' player q" if "q \<in> set toFlip" for q
  proof -
    from that notin have ne: "q \<noteq> position" by auto
    from opp [OF that] obtain sq where sq: "in_bounds b q" "map_of (board b) q = Some sq"
      "val sq = opponent_of player"
      by (auto simp: owned_lookup)
    from flip [OF that] sq(2) ne have "map_of (board b') q = Some (sq\<lparr>val := opponent_of (val sq)\<rparr>)"
      by (simp add: b1(4))
    with sq assms(2) opponent_of_values(2,3) have "owned b' player q"
      by (auto simp: owned_def inb opponent_of_def)
    with opp [OF that] show ?thesis by simp
  qed
  have rest: "map_of (board b') q = map_of (board b) q" if "q \<noteq> position \<and> q \<notin> set toFlip" for q
    using that keep [of q] by (simp add: b1(4))
  from b1(1) b' ok size entry(1) placed flipped rest show ?thesis by simp
qed

theorem C3_place_legal_move_witness:
  "Board_ok start4 \<and> getValidMoves start4 1 =
      Some (Inr [((0, 2), [(1, 2)]), ((1, 3), [(1, 2)]), ((2, 0), [(2, 1)]), ((3, 1), [(2, 1)])])
   \<and> (\<exists>b'. placePiece (0, 2) 1 [(1, 2)] start4 = (None, b')
        \<and> owned b' 1 (0, 2) \<and> owned start4 2 (1, 2) \<and> owned b' 1 (1, 2)
        \<and> map_of (board b') (2, 1) = Some \<lparr>val = 2\<rparr>)"
proof -
  from C3_place_legal_move [OF Board_ok_start4 _ getValidMoves_start4, of "(0, 2)" "[(1, 2)]"]
  obtain b' where b': "placePiece (0, 2) 1 [(1, 2)] start4 = (None, b')"
    "owned b' 1 (0, 2)"
    "\<forall>q \<in> set [(1, 2)]. owned start4 (opponent_of 1) q \<and> owned b' 1 q"
    "\<forall>q. q \<noteq> (0, 2) \<and> q \<notin> set [(1, 2)] \<longrightarrow> map_of (board b') q = map_of (board start4) q"
    by auto
  from b'(3) have "owned start4 2 (1, 2)" "owned b' 1 (1, 2)"
    by (simp_all add: opponent_of_def)
  moreover from spec [OF b'(4), of "(2, 1)"] have "map_of (board b') (2, 1) = Some \<lparr>val = 2\<rparr>"
    by (simp add: start4_def)
  ultimately show ?thesis
    using b'(1,2) by (simp add: Board_ok_start4 getValidMoves_start4)
qed

lemma setPiece_Inr: "setPiece player sq = Inr sq' \<longleftrightarrow> val sq = 0 \<and> sq' = sq\<lparr>val := player\<rparr>"
  by (auto simp: setPiece_def)

lemma setPiece_Inl: "setPiece player sq = Inl e \<longleftrightarrow> val sq \<noteq> 0 \<and> e = OccupiedCellError"
  by (auto simp: setPiece_def)

text \<open>
  C10. \<open>placePiece\<close> is not atomic. If it ends in the exception for flipping an empty
  square, the returned board is not the board of the call: \<open>toFlip\<close> splits, in iteration
  order, into a prefix, the offending position \<open>q\<close> whose square is empty, and a rest; the
  square at \<open>position\<close> was empty and has been set to the player; every square of the
  prefix has been flipped; all other squares are as they were. A capture set never
  contains the position being played, so the square at \<open>position\<close> holds the player; for
  a set that does contain it in the prefix, that square has been flipped once more.
\<close>

theorem C10_place_not_atomic:
  assumes "player = 1 \<or> player = 2" "distinct toFlip"
    "placePiece position player toFlip b = (Some EmptyCellFlipError, b')"
  shows "\<exists>pre q post sq0. toFlip = pre @ q # post \<and> q \<noteq> position
     \<and> map_of (board b) position = Some sq0 \<and> val sq0 = 0
     \<and> (position \<notin> set pre \<longrightarrow> map_of (board b') position = Some (sq0\<lparr>val := player\<rparr>))
     \<and> (position \<in> set pre \<longrightarrow>
           map_of (board b') position = Some (sq0\<lparr>val := opponent_of player\<rparr>))
     \<and> (\<exists>sq. map_of (board b) q = Some sq \<and> val sq = 0)
     \<and> (\<forall>x \<in> set pre - {position}. \<exists>sq. map_of (board b) x = Some sq \<and> val sq \<noteq> 0
            \<and> map_of (board b') x = Some (sq\<lparr>val := opponent_of (val sq)\<rparr>))
     \<and> (\<forall>x. x \<noteq> position \<and> x \<notin> set pre \<longrightarrow> map_of (board b') x = map_of (board b) x)
     \<and> b' \<noteq> b"
proof -
  from assms(3) obtain b1 where placed0: "at_apply position (setPiece player) b = Inr b1"
    and flips: "flip_each toFlip b1 = (Some EmptyCellFlipError, b')"
    by (cases "at_apply position (setPiece player) b")
      (auto simp: placePiece_def at_apply_Inl setPiece_Inl)
  from placed0 obtain sq0 where sq0: "map_of (board b) position = Some sq0" "val sq0 = 0"
    and b1: "b1 = b\<lparr>board := map_store position (sq0\<lparr>val := player\<rparr>) (board b)\<rparr>"
    by (auto simp: at_apply_Inr setPiece_Inr)
  have m1: "map_of (board b1) = (map_of (board b))(position \<mapsto> sq0\<lparr>val := player\<rparr>)"
    by (simp add: b1 map_of_store_present [OF sq0(1)])
  from flip_each_throws [OF flips] obtain pre q post where
    split: "toFlip = pre @ q # post" and pre: "flip_each pre b1 = (None, b')"
    and thrown: "at_apply q flipPiece b' = Inl EmptyCellFlipError"
    by blast
  from split assms(2) have dist: "distinct pre" and q: "q \<notin> set pre"
    by auto
  from flip_each_done [OF dist pre] have
    flip: "\<And>x. x \<in> set pre \<Longrightarrow> \<exists>sq. map_of (board b1) x = Some sq \<and> val sq \<noteq> 0
          \<and> map_of (board b') x = Some (sq\<lparr>val := opponent_of (val sq)\<rparr>)"
    and keep: "\<And>p. p \<notin> set pre \<Longrightarrow> map_of (board b') p = map_of (board b1) p"
    by blast+
  from thrown obtain sq where sq: "map_of (board b') q = Some sq" "val sq = 0"
    by (auto simp: at_apply_Inl flipPiece_Inl)
  have q_pos: "q \<noteq> position"
  proof
    assume "q = position"
    with keep [OF q] sq(1) have "sq = sq0\<lparr>val := player\<rparr>" by (simp add: m1)
    with sq(2) assms(1) show False by auto
  qed
  from keep [OF q] q_pos have "map_of (board b') q = map_of (board b) q"
    by (simp add: m1)
  with sq have offending: "\<exists>sq. map_of (board b) q = Some sq \<and> val sq = 0"
    by auto
  have placed: "map_of (board b') position = Some (sq0\<lparr>val := player\<rparr>)"
    if "position \<notin> set pre"
    using keep [OF that] by (simp add: m1)
  have reflipped: "map_of (board b') position = Some (sq0\<lparr>val := opponent_of player\<rparr>)"
    if "position \<in> set pre"
    using flip [OF that] by (simp add: m1)
  have flipped: "\<exists>sq. map_of (board b) x = Some sq \<and> val sq \<noteq> 0
            \<and> map_of (board b') x = Some (sq\<lparr>val := opponent_of (val sq)\<rparr>)"
    if "x \<in> set pre - {position}" for x
  proof -
    from that have "x \<in> set pre" "x \<noteq> position" by auto
    with flip [of x] show ?thesis by (simp add: m1)
  qed
  have rest: "map_of (board b') x = map_of (board b) x" if "x \<noteq> position \<and> x \<notin> set pre" for x
    using that keep [of x] by (simp add: m1)
  have changed: "b' \<noteq> b"
  proof
    assume same: "b' = b"
    have "\<exists>v. v \<noteq> 0 \<and> map_of (board b') position = Some (sq0\<lparr>val := v\<rparr>)"
    proof (cases "position \<in> set pre")
      case True
      from reflipped [OF True] opponent_of_values(1) [of player] show ?thesis by blast
    next
      case False
      from assms(1) have "player \<noteq> 0" by auto
      with placed [OF False] show ?thesis by blast
    qed
    then obtain v where v: "v \<noteq> 0" "map_of (board b) position = Some (sq0\<lparr>val := v\<rparr>)"
      using same by auto
    with sq0 have "sq0\<lparr>val := v\<rparr> = sq0" by simp
    then have "val (sq0\<lparr>val := v\<rparr>) = val sq0" by simp
    with sq0(2) v(1) show False by simp
  qed
  from split q_pos sq0 placed reflipped offending flipped rest changed show ?thesis by blast
qed

lemma placePiece_stale:
  "placePiece (0, 2) 1 [(1, 2), (3, 3)] start4 =
     (Some EmptyCellFlipError,
      start4\<lparr>board := map_store (1, 2) \<lparr>val = 1\<rparr> (map_store (0, 2) \<lparr>val = 1\<rparr> (board start4))\<rparr>)"
  by (simp add: placePiece_def at_apply_def setPiece_def flipPiece_def start4_def)

theorem C10_place_not_atomic_witness:
  "distinct [(1, 2), (3::int, 3::int)]
   \<and> (\<exists>b'. placePiece (0, 2) 1 [(1, 2), (3, 3)] start4 = (Some EmptyCellFlipError, b')
        \<and> map_of (board b') (0, 2) = Some \<lparr>val = 1\<rparr>
        \<and> map_of (board b') (1, 2) = Some \<lparr>val = 1\<rparr>
        \<and> map_of (board start4) (1, 2) = Some \<lparr>val = 2\<rparr>
        \<and> map_of (board b') (2, 1) = map_of (board start4) (2, 1)
        \<and> b' \<noteq> start4)"
proof -
  let ?b' = "start4\<lparr>board := map_store (1, 2) \<lparr>val = 1\<rparr> (map_store (0, 2) \<lparr>val = 1\<rparr> (board start4))\<rparr>"
  have d: "distinct [(1, 2), (3::int, 3::int)]"
    by simp
  from C10_place_not_atomic [OF _ d placePiece_stale]
  have "?b' \<noteq> start4"
    by auto
  moreover have "map_of (board ?b') (0, 2) = Some \<lparr>val = 1\<rparr>"
    "map_of (board ?b') (1, 2) = Some \<lparr>val = 1\<rparr>" "map_of (board start4) (1, 2) = Some \<lparr>val = 2\<rparr>"
    "map_of (board ?b') (2, 1) = map_of (board start4) (2, 1)"
    by (simp_all add: start4_def)
  ultimately show ?thesis
    using placePiece_stale by auto
qed

section \<open>The heuristic opponent\<close>

lemma set_sort_moves: "set (sort_moves ms) = set ms"
  by (simp add: sort_moves_def)

lemma length_sort_moves: "length (sort_moves ms) = length ms"
  by (simp add: sort_moves_def)

lemma set_flip_counts:
  "set (flip_counts vm) = (\<lambda>move. (int (length (snd move)), fst move)) ` set vm"
  by (simp add: flip_counts_def)

lemma distinct_sorted_moves:
  assumes "distinct (map fst vm)"
  shows "distinct (map snd (sort_moves (flip_counts vm)))"
proof -
  have "map snd (flip_counts vm) = map fst vm"
    by (simp add: flip_counts_def comp_def)
  with assms have "distinct (map snd (flip_counts vm))" by simp
  then have "distinct (flip_counts vm)" "inj_on snd (set (flip_counts vm))"
    by (simp_all add: distinct_map)
  then show ?thesis
    by (simp add: distinct_map sort_moves_def)
qed

lemma keys_sorted_moves: "set (map snd (sort_moves (flip_counts vm))) = fst ` set vm"
  by (force simp: set_sort_moves set_flip_counts)

lemma queue_top_Max: "ms \<noteq> [] \<Longrightarrow> queue_top ms = Max (set ms)"
proof (cases ms)
  case Nil
  assume "ms \<noteq> []"
  with Nil show ?thesis by simp
next
  case (Cons m rest)
  have "Max (set (m # rest)) = fold max rest m"
    by (rule Max.set_eq_fold)
  with Cons show ?thesis by (simp add: queue_top_def)
qed

lemma getAIMove_random:
  assumes "vm \<noteq> []"
  shows "getAIMove 0 i vm = Some (map snd (sort_moves (flip_counts vm)) ! (i mod length vm))"
proof -
  let ?ms = "sort_moves (flip_counts vm)"
  from assms have len: "length ?ms = length vm" "0 < length vm"
    by (simp_all add: length_sort_moves flip_counts_def)
  then have "?ms \<noteq> []" by auto
  with len show ?thesis
    by (simp add: getAIMove_def Let_def)
qed

text \<open>
  C5 (as the code has it). For a non-empty map with keys in increasing order,
  \<open>getAIMove\<close> returns a key of the map. When the first draw is even it returns the
  position at index \<open>rand2 mod n\<close> of the list of moves sorted by falling flip count,
  and the indices below \<open>n\<close> correspond one to one to the keys. When the first draw
  is odd, the set under the returned key has the greatest size of all, and among the keys
  with a set of that size the returned key is the greatest, that is the last one in
  row-major order.
\<close>

theorem C5_ai_move:
  assumes "validMoves \<noteq> []" "sorted_wrt (<) (map fst validMoves)"
  shows "\<exists>position toFlip. getAIMove rand1 rand2 validMoves = Some position
     \<and> (position, toFlip) \<in> set validMoves
     \<and> (rand1 mod 2 = 0 \<longrightarrow>
           position = snd (sort_moves (flip_counts validMoves) ! (rand2 mod length validMoves)))
     \<and> (rand1 mod 2 \<noteq> 0 \<longrightarrow>
           (\<forall>move \<in> set validMoves. length (snd move) \<le> length toFlip
              \<and> (length (snd move) = length toFlip \<longrightarrow> fst move \<le> position)))
     \<and> bij_betw (\<lambda>i. getAIMove 0 i validMoves) {0..<length validMoves}
           (Some ` fst ` set validMoves)"
proof -
  let ?ms = "sort_moves (flip_counts validMoves)"
  let ?n = "length validMoves"
  from assms(2) have dist: "distinct (map fst validMoves)"
    by (simp add: strict_sorted_iff)
  from assms(1) have len: "length ?ms = ?n" "0 < ?n"
    by (simp_all add: length_sort_moves flip_counts_def)
  then have ne: "?ms \<noteq> []" by auto
  have bij: "bij_betw (\<lambda>i. getAIMove 0 i validMoves) {0..<?n} (Some ` fst ` set validMoves)"
  proof -
    have "bij_betw ((!) (map snd ?ms)) {..<length (map snd ?ms)} (set (map snd ?ms))"
      by (rule bij_betw_nth [OF distinct_sorted_moves [OF dist]]) simp_all
    then have "bij_betw ((!) (map snd ?ms)) {0..<?n} (fst ` set validMoves)"
      by (simp add: keys_sorted_moves len(1) atLeast0LessThan del: set_map)
    then have "bij_betw (Some \<circ> (!) (map snd ?ms)) {0..<?n} (Some ` fst ` set validMoves)"
      by (rule bij_betw_trans) (simp add: bij_betw_def inj_on_def)
    moreover have "getAIMove 0 i validMoves = (Some \<circ> (!) (map snd ?ms)) i" if "i \<in> {0..<?n}" for i
      using that getAIMove_random [OF assms(1), of i] by simp
    ultimately show ?thesis
      using bij_betw_cong [of "{0..<?n}" "\<lambda>i. getAIMove 0 i validMoves" "Some \<circ> (!) (map snd ?ms)"]
      by blast
  qed
  show ?thesis
  proof (cases "rand1 mod 2 = 0")
    case True
    let ?i = "rand2 mod ?n"
    from len have i: "?i < length ?ms" by simp
    then have "?ms ! ?i \<in> set (flip_counts validMoves)"
      using nth_mem [OF i] by (simp add: set_sort_moves)
    then obtain move where move: "move \<in> set validMoves" "snd (?ms ! ?i) = fst move"
      by (auto simp: set_flip_counts)
    have "getAIMove rand1 rand2 validMoves = Some (snd (?ms ! ?i))"
      using True ne len by (simp add: getAIMove_def Let_def)
    moreover from move have "(snd (?ms ! ?i), snd move) \<in> set validMoves" by simp
    ultimately show ?thesis using True bij
      by (intro exI [of _ "snd (?ms ! ?i)"] exI [of _ "snd move"]) simp
  next
    case False
    let ?top = "Max (set ?ms)"
    have top: "getAIMove rand1 rand2 validMoves = Some (snd ?top)"
      using False ne by (simp add: getAIMove_def Let_def queue_top_Max)
    from ne have "?top \<in> set ?ms" by (intro Max_in) simp_all
    then obtain best where best: "best \<in> set validMoves"
      "?top = (int (length (snd best)), fst best)"
      by (auto simp: set_sort_moves set_flip_counts)
    have greatest: "length (snd move) \<le> length (snd best)
        \<and> (length (snd move) = length (snd best) \<longrightarrow> fst move \<le> fst best)"
      if "move \<in> set validMoves" for move
    proof -
      from that have "(int (length (snd move)), fst move) \<in> set ?ms"
        by (auto simp: set_sort_moves set_flip_counts)
      then have "(int (length (snd move)), fst move) \<le> ?top"
        by (intro Max_ge) simp_all
      then show ?thesis
        unfolding best(2) by (auto simp: less_eq_prod_def)
    qed
    from best have "(snd ?top, snd best) \<in> set validMoves" by simp
    with top False greatest bij best(2) show ?thesis
      by (intro exI [of _ "snd ?top"] exI [of _ "snd best"]) simp
  qed
qed

lemma first_max_key_moves4: "first_max_key moves4 = (0, 2)"
  by (simp add: first_max_key_def moves4_def)

lemma getAIMove_moves4: "getAIMove 1 0 moves4 = Some (3, 1)"
  by code_simp

theorem C5_ai_move_witness:
  "moves4 \<noteq> [] \<and> sorted_wrt (<) (map fst moves4) \<and> getAIMove 1 0 moves4 = Some (3, 1)
   \<and> ((3, 1), [(2, 1)]) \<in> set moves4
   \<and> (0, 2) \<le> ((3, 1) :: pos) \<and> (1, 3) \<le> ((3, 1) :: pos) \<and> (2, 0) \<le> ((3, 1) :: pos)"
proof -
  have h: "moves4 \<noteq> []" "sorted_wrt (<) (map fst moves4)"
    by (simp_all add: moves4_def)
  from C5_ai_move [OF h, of 1 0] getAIMove_moves4 obtain toFlip where
    t: "((3, 1), toFlip) \<in> set moves4"
      "\<forall>move \<in> set moves4. length (snd move) \<le> length toFlip
              \<and> (length (snd move) = length toFlip \<longrightarrow> fst move \<le> (3, 1))"
    by auto
  from t(1) have toFlip: "toFlip = [(2, 1)]"
    by (simp add: moves4_def)
  from t(2) have "(0, 2) \<le> ((3, 1) :: pos)" "(1, 3) \<le> ((3, 1) :: pos)" "(2, 0) \<le> ((3, 1) :: pos)"
    by (simp_all add: moves4_def toFlip)
  with h t(1) getAIMove_moves4 show ?thesis
    by (simp add: toFlip)
qed

text \<open>The tie-break as the claim states it fails on the four moves of the starting
  position, which all flip one square: the code returns the last key, not the first.\<close>

theorem C5_tie_break_counterexample:
  "getAIMove 1 0 moves4 = Some (3, 1) \<and> first_max_key moves4 = (0, 2)
   \<and> getAIMove 1 0 moves4 \<noteq> Some (first_max_key moves4)"
  using getAIMove_moves4 first_max_key_moves4 by simp

section \<open>The turn loop\<close>

lemma turn_no_moves:
  "getValidMoves (theBoard g) (currentPlayer g) = Some (Inr []) \<Longrightarrow>
   turn m g = Some (Inr (if \<not> prevPlayerMoved g then Break g else Continue (passed g)))"
  by (simp add: turn_def and_then_def passed_def)

lemma turn_with_moves:
  "getValidMoves (theBoard g) (currentPlayer g) = Some (Inr vm) \<Longrightarrow> vm \<noteq> [] \<Longrightarrow>
   turn m g =
     (case map_of vm m of
        None \<Rightarrow> Some (Inl out_of_range)
      | Some toFlip \<Rightarrow>
          (case placePiece m (currentPlayer g) toFlip (theBoard g) of
             (Some e, b') \<Rightarrow> Some (Inl e)
           | (None, b') \<Rightarrow> Some (Inr (Continue (moved m b' g)))))"
  by (simp add: turn_def and_then_def moved_def split: option.split prod.split)

lemma turn_returns:
  assumes "turn m g = Some (Inr r)"
  shows "\<exists>vm. getValidMoves (theBoard g) (currentPlayer g) = Some (Inr vm)"
proof (cases "getValidMoves (theBoard g) (currentPlayer g)")
  case None
  with assms show ?thesis by (simp add: turn_def and_then_def)
next
  case (Some res)
  with assms show ?thesis by (cases res) (simp_all add: turn_def and_then_def)
qed

lemma turn_Break:
  "turn m g = Some (Inr (Break g')) \<longleftrightarrow> no_valid_moves g \<and> \<not> prevPlayerMoved g \<and> g' = g"
proof
  assume brk: "turn m g = Some (Inr (Break g'))"
  from turn_returns [OF brk] obtain vm where
    vm: "getValidMoves (theBoard g) (currentPlayer g) = Some (Inr vm)" by blast
  show "no_valid_moves g \<and> \<not> prevPlayerMoved g \<and> g' = g"
  proof (cases "vm = []")
    case True
    with vm brk turn_no_moves [of g m] show ?thesis
      by (auto simp: no_valid_moves_def split: if_splits)
  next
    case False
    from brk turn_with_moves [OF vm False, of m] show ?thesis
      by (auto split: option.splits prod.splits)
  qed
next
  assume "no_valid_moves g \<and> \<not> prevPlayerMoved g \<and> g' = g"
  then show "turn m g = Some (Inr (Break g'))"
    using turn_no_moves [of g m] by (simp add: no_valid_moves_def)
qed

lemma turn_Continue:
  assumes "turn m g = Some (Inr (Continue g'))"
  shows "(no_valid_moves g \<and> prevPlayerMoved g \<and> g' = passed g)
     \<or> (\<not> no_valid_moves g \<and> (\<exists>vm toFlip b'.
           getValidMoves (theBoard g) (currentPlayer g) = Some (Inr vm)
           \<and> map_of vm m = Some toFlip
           \<and> placePiece m (currentPlayer g) toFlip (theBoard g) = (None, b')
           \<and> g' = moved m b' g))"
proof -
  from turn_returns [OF assms] obtain vm where
    vm: "getValidMoves (theBoard g) (currentPlayer g) = Some (Inr vm)" by blast
  show ?thesis
  proof (cases "vm = []")
    case True
    with vm assms turn_no_moves [of g m] show ?thesis
      by (auto simp: no_valid_moves_def split: if_splits)
  next
    case False
    with vm have "\<not> no_valid_moves g" by (simp add: no_valid_moves_def)
    moreover from assms turn_with_moves [OF vm False, of m]
    have "\<exists>toFlip b'. map_of vm m = Some toFlip
           \<and> placePiece m (currentPlayer g) toFlip (theBoard g) = (None, b')
           \<and> g' = moved m b' g"
      by (auto split: option.splits prod.splits)
    ultimately show ?thesis using vm by blast
  qed
qed

lemma prevPlayerMoved_after:
  assumes "turn m g = Some (Inr (Continue g'))"
  shows "prevPlayerMoved g' \<longleftrightarrow> \<not> no_valid_moves g"
  using turn_Continue [OF assms]
  by (auto simp: passed_def moved_def swap_players_def)

lemma replay4:
  "turns [(0, 2), (0, 1), (0, 0), (0, 3), (1, 3), (2, 3), (3, 0), (1, 0), (2, 0), (0, 0),
          (3, 2), (3, 1), (3, 3)] (new_game start4) = Some (Inr (Continue endgame4))"
  by code_simp

lemma endgame4_no_moves: "no_valid_moves endgame4" "no_valid_moves (passed endgame4)"
  by code_simp+

lemma Board_ok_endgame4: "Board_ok (theBoard endgame4)"
  by code_simp

lemma count_value_card:
  assumes "Board_ok b"
  shows "count_value b v = int (card {p. owned b v p})"
proof -
  let ?es = "filter (\<lambda>entry. getValue (snd entry) = v) (board b)"
  from assms have dist: "distinct (map fst (board b))"
    by (simp add: Board_ok_def distinct_all_positions)
  then have "distinct (map fst ?es)"
    by (rule distinct_map_filter)
  then have len: "card (set (map fst ?es)) = length ?es"
    using distinct_card [of "map fst ?es"] by simp
  have "owned b v p \<longleftrightarrow> p \<in> set (map fst ?es)" for p
  proof
    assume "owned b v p"
    then obtain sq where "map_of (board b) p = Some sq" "val sq = v"
      by (auto simp: owned_lookup)
    then have "(p, sq) \<in> set ?es"
      by (auto simp: getValue_def dest: map_of_SomeD)
    then show "p \<in> set (map fst ?es)" by force
  next
    assume "p \<in> set (map fst ?es)"
    then obtain sq where sq: "(p, sq) \<in> set (board b)" "val sq = v"
      by (auto simp: getValue_def)
    with dist have look: "map_of (board b) p = Some sq" by simp
    with Board_ok_lookup [OF assms, of p] have "in_bounds b p" by blast
    with look sq(2) show "owned b v p" by (simp add: owned_def)
  qed
  then have "{p. owned b v p} = set (map fst ?es)" by blast
  with len show ?thesis by (simp add: count_value_def)
qed

text \<open>
  C4. The loop of \<open>playGame\<close> ends by \<open>break\<close> exactly when two consecutive turns both
  find no valid move: the first turn of a game never breaks; and when a turn from \<open>g\<close>
  goes on to \<open>g1\<close>, the turn from \<open>g1\<close> breaks if and only if neither the turn from \<open>g\<close>
  nor the turn from \<open>g1\<close> found a valid move. The break leaves the state as it is. A turn
  without a valid move after a turn with one goes on with the players swapped, the same
  board and the same history. The report after the loop names player X when X holds more
  squares than O, player O when O holds more, and a draw when they hold equally many.
\<close>

theorem C4_double_pass:
  "turn m0 (new_game b0) \<noteq> Some (Inr (Break g0))
   \<and> (turn m g = Some (Inr (Continue g1)) \<longrightarrow>
        ((\<exists>g2. turn m1 g1 = Some (Inr (Break g2))) \<longleftrightarrow> no_valid_moves g \<and> no_valid_moves g1))
   \<and> (turn m1 g1 = Some (Inr (Break g2)) \<longrightarrow> g2 = g1)
   \<and> (no_valid_moves g \<and> prevPlayerMoved g \<longrightarrow>
        (\<exists>g'. turn m g = Some (Inr (Continue g')) \<and> currentPlayer g' = nextPlayer g
           \<and> nextPlayer g' = currentPlayer g \<and> \<not> prevPlayerMoved g'
           \<and> theBoard g' = theBoard g \<and> gameHistory g' = gameHistory g))
   \<and> (Board_ok b \<longrightarrow>
        (card {p. owned b 2 p} < card {p. owned b 1 p} \<longrightarrow>
           showWinner b = Player_X_wins (int (card {p. owned b 1 p})) (int (card {p. owned b 2 p})))
        \<and> (card {p. owned b 1 p} < card {p. owned b 2 p} \<longrightarrow>
           showWinner b = Player_O_wins (int (card {p. owned b 2 p})) (int (card {p. owned b 1 p})))
        \<and> (card {p. owned b 1 p} = card {p. owned b 2 p} \<longrightarrow>
           showWinner b = Draw (int (card {p. owned b 1 p})) (int (card {p. owned b 2 p}))))"
proof -
  have first: "turn m0 (new_game b0) \<noteq> Some (Inr (Break g0))"
    by (simp add: turn_Break new_game_def)
  have two: "(\<exists>g2. turn m1 g1 = Some (Inr (Break g2))) \<longleftrightarrow> no_valid_moves g \<and> no_valid_moves g1"
    if "turn m g = Some (Inr (Continue g1))"
    using prevPlayerMoved_after [OF that] by (auto simp: turn_Break)
  have same: "g2 = g1" if "turn m1 g1 = Some (Inr (Break g2))"
    using that by (simp add: turn_Break)
  have pass: "\<exists>g'. turn m g = Some (Inr (Continue g')) \<and> currentPlayer g' = nextPlayer g
           \<and> nextPlayer g' = currentPlayer g \<and> \<not> prevPlayerMoved g'
           \<and> theBoard g' = theBoard g \<and> gameHistory g' = gameHistory g"
    if "no_valid_moves g \<and> prevPlayerMoved g"
    using that turn_no_moves [of g m]
    by (simp add: no_valid_moves_def passed_def swap_players_def)
  have report: "(card {p. owned b 2 p} < card {p. owned b 1 p} \<longrightarrow>
           showWinner b = Player_X_wins (int (card {p. owned b 1 p})) (int (card {p. owned b 2 p})))
        \<and> (card {p. owned b 1 p} < card {p. owned b 2 p} \<longrightarrow>
           showWinner b = Player_O_wins (int (card {p. owned b 2 p})) (int (card {p. owned b 1 p})))
        \<and> (card {p. owned b 1 p} = card {p. owned b 2 p} \<longrightarrow>
           showWinner b = Draw (int (card {p. owned b 1 p})) (int (card {p. owned b 2 p})))"
    if "Board_ok b"
    by (simp add: showWinner_def Let_def count_value_card [OF that])
  from first two same pass report show ?thesis by blast
qed

theorem C4_double_pass_witness:
  "turns [(0, 2), (0, 1), (0, 0), (0, 3), (1, 3), (2, 3), (3, 0), (1, 0), (2, 0), (0, 0),
          (3, 2), (3, 1), (3, 3)] (new_game start4) = Some (Inr (Continue endgame4))
   \<and> no_valid_moves endgame4 \<and> prevPlayerMoved endgame4
   \<and> turn (0, 0) endgame4 = Some (Inr (Continue (passed endgame4)))
   \<and> theBoard (passed endgame4) = theBoard endgame4
   \<and> gameHistory (passed endgame4) = gameHistory endgame4
   \<and> no_valid_moves (passed endgame4)
   \<and> turn (0, 0) (passed endgame4) = Some (Inr (Break (passed endgame4)))
   \<and> Board_ok (theBoard endgame4)
   \<and> showWinner (theBoard endgame4) = Player_X_wins 12 4"
proof -
  note c4 = C4_double_pass [of _ _ _ "(0, 0)" endgame4 "passed endgame4" "(0, 0)" _ "theBoard endgame4"]
  have ppm: "prevPlayerMoved endgame4"
    by (simp add: endgame4_def)
  have pass: "turn (0, 0) endgame4 = Some (Inr (Continue (passed endgame4)))"
    using turn_no_moves [of endgame4 "(0, 0)"] endgame4_no_moves(1) ppm
    by (simp add: no_valid_moves_def)
  from c4 pass endgame4_no_moves obtain g2 where
    g2: "turn (0, 0) (passed endgame4) = Some (Inr (Break g2))"
    by blast
  with c4 have brk: "turn (0, 0) (passed endgame4) = Some (Inr (Break (passed endgame4)))"
    by blast
  have same: "theBoard (passed endgame4) = theBoard endgame4"
    "gameHistory (passed endgame4) = gameHistory endgame4"
    by (simp_all add: passed_def swap_players_def)
  have tally: "showWinner (theBoard endgame4) = Player_X_wins 12 4"
    by code_simp
  from replay4 endgame4_no_moves ppm pass same brk Board_ok_endgame4 tally show ?thesis
    by simp
qed

lemma set_map_store: "set (map_store k v m) \<subseteq> insert (k, v) (set m)"
  by (induction m) (auto split: if_splits)

lemma center_cells_values: "center_cells c p = Some sq \<Longrightarrow> val sq = 1 \<or> val sq = 2"
  by (auto simp: center_cells_def split: if_splits)

lemma empty_squares_values: "map_of (empty_squares n) p = Some sq \<Longrightarrow> val sq = 0"
  by (auto simp: map_of_empty_squares split: if_splits)

lemma at_apply_preserves:
  assumes "at_apply p f b = Inr b'" "\<And>sq sq'. f sq = Inr sq' \<Longrightarrow> val sq' \<in> {0, 1, 2}"
  shows "map fst (board b') = map fst (board b)" "maxBoardSize b' = maxBoardSize b"
    and "cells_ok b \<Longrightarrow> cells_ok b'"
proof -
  from assms(1) obtain sq sq' where f: "f sq = Inr sq'"
    and b': "b' = b\<lparr>board := map_store p sq' (board b)\<rparr>"
    by (auto simp: at_apply_Inr)
  show "map fst (board b') = map fst (board b)" "maxBoardSize b' = maxBoardSize b"
    by (simp_all add: b' keys_map_store)
  show "cells_ok b'" if "cells_ok b"
    unfolding cells_ok_def
  proof
    fix entry assume "entry \<in> set (board b')"
    with set_map_store [of p sq' "board b"] have "entry = (p, sq') \<or> entry \<in> set (board b)"
      by (auto simp: b')
    with that assms(2) [OF f] show "val (snd entry) \<in> {0, 1, 2}"
      by (auto simp: cells_ok_def)
  qed
qed

lemma flip_each_preserves:
  "flip_each qs b = (None, b') \<Longrightarrow>
   map fst (board b') = map fst (board b) \<and> maxBoardSize b' = maxBoardSize b
   \<and> (cells_ok b \<longrightarrow> cells_ok b')"
proof (induction qs arbitrary: b)
  case Nil
  then show ?case by simp
next
  case (Cons q qs)
  from Cons.prems obtain b1 where b1: "at_apply q flipPiece b = Inr b1"
    and rest: "flip_each qs b1 = (None, b')"
    by (cases "at_apply q flipPiece b") auto
  have "val sq' \<in> {0, 1, 2}" if "flipPiece sq = Inr sq'" for sq sq'
    using that by (auto simp: flipPiece_def split: if_splits)
  from at_apply_preserves [OF b1 this] Cons.IH [OF rest] show ?case by simp
qed

lemma placePiece_preserves:
  assumes "placePiece position player toFlip b = (None, b')" "player = 1 \<or> player = 2"
  shows "map fst (board b') = map fst (board b) \<and> maxBoardSize b' = maxBoardSize b
   \<and> (cells_ok b \<longrightarrow> cells_ok b')"
proof -
  from assms(1) obtain b1 where b1: "at_apply position (setPiece player) b = Inr b1"
    and rest: "flip_each toFlip b1 = (None, b')"
    by (cases "at_apply position (setPiece player) b") (auto simp: placePiece_def)
  have "val sq' \<in> {0, 1, 2}" if "setPiece player sq = Inr sq'" for sq sq'
    using that assms(2) by (auto simp: setPiece_def split: if_splits)
  from at_apply_preserves [OF b1 this] flip_each_preserves [OF rest] show ?thesis by simp
qed

lemma count_three:
  "\<forall>x \<in> set xs. f x \<in> {0, 1, 2 :: int} \<Longrightarrow>
   length (filter (\<lambda>x. f x = 1) xs) + length (filter (\<lambda>x. f x = 2) xs)
     + length (filter (\<lambda>x. f x = 0) xs) = length xs"
  by (induction xs) auto

lemma count_value_total:
  assumes "cells_ok b"
  shows "count_value b 1 + count_value b 2 + count_value b 0 = int (length (board b))"
  using count_three [of "board b" "\<lambda>entry. val (snd entry)"] assms
  by (simp add: count_value_def getValue_def cells_ok_def)

lemma Board_new_cells_ok:
  assumes "Board_new n = Inr b"
  shows "Board_ok b" "maxBoardSize b = n" "cells_ok b" "4 \<le> n"
proof -
  from assms show n: "4 \<le> n"
    by (simp add: Board_new_def split: if_splits)
  from Board_new_ok [OF n] assms have ok: "Board_ok b" "maxBoardSize b = n"
    and cells: "map_of (board b) = map_of (empty_squares n) ++ center_cells (n div 2)"
    by auto
  show "Board_ok b" "maxBoardSize b = n" by (fact ok)+
  from ok(1) have dist: "distinct (map fst (board b))"
    by (simp add: Board_ok_def distinct_all_positions)
  show "cells_ok b"
    unfolding cells_ok_def
  proof
    fix entry assume "entry \<in> set (board b)"
    with dist have "map_of (board b) (fst entry) = Some (snd entry)" by simp
    then have "center_cells (n div 2) (fst entry) = Some (snd entry)
        \<or> map_of (empty_squares n) (fst entry) = Some (snd entry)"
      unfolding cells by (auto simp: map_add_Some_iff)
    then show "val (snd entry) \<in> {0, 1, 2}"
      using center_cells_values empty_squares_values by blast
  qed
qed

lemma turn_keeps_inv:
  assumes "game_inv n g" "turn m g = Some (Inr (Continue g'))"
  shows "game_inv n g'"
proof -
  from turn_Continue [OF assms(2)] show ?thesis
  proof
    assume "no_valid_moves g \<and> prevPlayerMoved g \<and> g' = passed g"
    with assms(1) show ?thesis
      by (auto simp: game_inv_def passed_def swap_players_def)
  next
    assume "\<not> no_valid_moves g \<and> (\<exists>vm toFlip b'.
           getValidMoves (theBoard g) (currentPlayer g) = Some (Inr vm)
           \<and> map_of vm m = Some toFlip
           \<and> placePiece m (currentPlayer g) toFlip (theBoard g) = (None, b')
           \<and> g' = moved m b' g)"
    then obtain toFlip b' where
      place: "placePiece m (currentPlayer g) toFlip (theBoard g) = (None, b')"
      and g': "g' = moved m b' g"
      by blast
    from assms(1) have pl: "currentPlayer g = 1 \<or> currentPlayer g = 2"
      by (auto simp: game_inv_def)
    from placePiece_preserves [OF place pl] assms(1) have
      "Board_ok b'" "maxBoardSize b' = n" "cells_ok b'"
      by (simp_all add: game_inv_def Board_ok_def)
    with assms(1) show ?thesis
      by (auto simp: game_inv_def g' moved_def swap_players_def)
  qed
qed

lemma reachable_inv: "reachable n g \<Longrightarrow> game_inv n g"
proof (induction rule: reachable.induct)
  case (start b)
  from Board_new_cells_ok [OF start] show ?case
    by (simp add: game_inv_def new_game_def)
next
  case (step g playerMove g')
  then show ?case by (simp add: turn_keeps_inv)
qed

lemma reachable_turns:
  "reachable n g \<Longrightarrow> turns ms g = Some (Inr (Continue g')) \<Longrightarrow> reachable n g'"
proof (induction ms arbitrary: g)
  case Nil
  then show ?case by simp
next
  case (Cons m ms)
  from Cons.prems(2) obtain g1 where g1: "turn m g = Some (Inr (Continue g1))"
    and rest: "turns ms g1 = Some (Inr (Continue g'))"
    by (auto split: option.splits sum.splits turn_result.splits)
  from Cons.prems(1) g1 have "reachable n g1" by (rule reachable.step)
  from Cons.IH [OF this rest] show ?case .
qed

text \<open>
  C9. In every state of the loop of \<open>playGame\<close> that is reached from the board the
  constructor builds for size \<open>n\<close> by turns that go on (passes and moves taken from the
  map of valid moves), the squares holding X, the squares holding O and the empty squares
  together number \<open>n * n\<close>, and the keys of the board are still exactly the positions of
  the grid.
\<close>

theorem C9_conservation:
  assumes "reachable n g"
  shows "count_value (theBoard g) 1 + count_value (theBoard g) 2 + count_value (theBoard g) 0 = n * n
     \<and> int (card {p. owned (theBoard g) 1 p}) + int (card {p. owned (theBoard g) 2 p})
         + int (card {p. owned (theBoard g) 0 p}) = n * n
     \<and> map fst (board (theBoard g)) = all_positions n
     \<and> maxBoardSize (theBoard g) = n"
proof -
  from reachable_inv [OF assms] have ok: "Board_ok (theBoard g)"
    and n: "maxBoardSize (theBoard g) = n" "4 \<le> n" and cells: "cells_ok (theBoard g)"
    by (simp_all add: game_inv_def)
  from ok n(1) have keys: "map fst (board (theBoard g)) = all_positions n"
    by (simp add: Board_ok_def)
  have "length (board (theBoard g)) = length (all_positions n)"
    using arg_cong [OF keys, of length] by simp
  with n(2) have "int (length (board (theBoard g))) = n * n"
    by (simp add: length_all_positions)
  with count_value_total [OF cells]
  have total: "count_value (theBoard g) 1 + count_value (theBoard g) 2 + count_value (theBoard g) 0 = n * n"
    by simp
  with keys n(1) show ?thesis
    by (simp add: count_value_card [OF ok, symmetric])
qed

theorem C9_conservation_witness:
  "reachable 4 endgame4
   \<and> count_value (theBoard endgame4) 1 = 12 \<and> count_value (theBoard endgame4) 2 = 4
   \<and> count_value (theBoard endgame4) 0 = 0
   \<and> count_value (theBoard endgame4) 1 + count_value (theBoard endgame4) 2
        + count_value (theBoard endgame4) 0 = 4 * 4"
proof -
  have r: "reachable 4 endgame4"
    using reachable.start [OF Board_new_4] replay4 by (rule reachable_turns)
  have "count_value (theBoard endgame4) 1 = 12" "count_value (theBoard endgame4) 2 = 4"
    by code_simp+
  with C9_conservation [OF r] r show ?thesis by simp
qed

end
